theory Spec2Isabelle
  imports Main "HOL-Library.Sublist"
begin

section \<open>Data model (main.go, lines 21-52)\<close>

definition MaxQueueSize :: nat where
  "MaxQueueSize = 50"

record Call =
  ID :: string
  URL :: string
  Filename :: string
  Time :: string

text \<open>The result of running an external command (\<^verbatim>\<open>cmd.Run()\<close>).\<close>

datatype exec_result = ExecOk | ExecErr

section \<open>Buffered channels\<close>

text \<open>
  \<^verbatim>\<open>make(chan Call, n)\<close> is a buffered channel: a FIFO buffer of at most \<open>n\<close> values.
  A send proceeds when the buffer has room and appends at the tail; a receive proceeds
  when the buffer is not empty and takes the head. An operation that cannot proceed
  blocks its goroutine: the model returns \<open>None\<close>.
\<close>

record 'a chan =
  buf :: "'a list"
  cap :: nat

definition make_chan :: "nat \<Rightarrow> 'a chan" where
  "make_chan n = \<lparr>buf = [], cap = n\<rparr>"

definition chan_send :: "'a chan \<Rightarrow> 'a \<Rightarrow> 'a chan option" where
  "chan_send q x = (if length (buf q) < cap q then Some (q\<lparr>buf := buf q @ [x]\<rparr>) else None)"

definition chan_recv :: "'a chan \<Rightarrow> ('a \<times> 'a chan) option" where
  "chan_recv q = (case buf q of [] \<Rightarrow> None | x # xs \<Rightarrow> Some (x, q\<lparr>buf := xs\<rparr>))"

text \<open>
  The enqueue of \<^verbatim>\<open>fetchCalls\<close> (main.go, lines 197-204):
  \<^verbatim>\<open>
  select {
  case queue <- call:
  default:
      <-queue
      queue <- call
  }
  \<close>
  The send of the \<^verbatim>\<open>select\<close> is tried without blocking; when it cannot proceed the
  \<^verbatim>\<open>default\<close> branch receives one value, which it discards, and then sends.
  The result is the discarded value, if any, and the channel; \<open>None\<close> when the goroutine
  blocks. The three channel operations are composed with no step of another goroutine
  between them.
\<close>

definition tryEnqueue :: "'a chan \<Rightarrow> 'a \<Rightarrow> ('a option \<times> 'a chan) option" where
  "tryEnqueue q x =
     (case chan_send q x of
        Some q' \<Rightarrow> Some (None, q')
      | None \<Rightarrow>
          (case chan_recv q of
             None \<Rightarrow> None
           | Some (old, q1) \<Rightarrow>
               (case chan_send q1 x of None \<Rightarrow> None | Some q2 \<Rightarrow> Some (Some old, q2))))"

text \<open>The receive of \<^verbatim>\<open>playAudio\<close> (main.go, line 223): \<^verbatim>\<open>call := <-queue\<close>.\<close>

definition dequeue :: "'a chan \<Rightarrow> ('a \<times> 'a chan) option" where
  "dequeue q = chan_recv q"

text \<open>
  Sequences of queue operations: the producer's \<open>tryEnqueue\<close> and the consumer's
  \<open>dequeue\<close>, in any order. The result lists what left the queue, in the order it
  left: evicted by the producer or delivered to the consumer. A sequence in which an
  operation cannot proceed is not a run: \<open>None\<close>.
\<close>

datatype 'a qop = Enqueue 'a | Dequeue

datatype 'a qout = Evicted 'a | Delivered 'a

fun removed :: "'a qout \<Rightarrow> 'a" where
  "removed (Evicted x) = x"
| "removed (Delivered x) = x"

fun enqueued :: "'a qop list \<Rightarrow> 'a list" where
  "enqueued [] = []"
| "enqueued (Enqueue x # ops) = x # enqueued ops"
| "enqueued (Dequeue # ops) = enqueued ops"

fun delivered :: "'a qout list \<Rightarrow> 'a list" where
  "delivered [] = []"
| "delivered (Delivered x # outs) = x # delivered outs"
| "delivered (Evicted x # outs) = delivered outs"

fun evicted :: "'a qout list \<Rightarrow> 'a list" where
  "evicted [] = []"
| "evicted (Evicted x # outs) = x # evicted outs"
| "evicted (Delivered x # outs) = evicted outs"

fun run_ops :: "'a chan \<Rightarrow> 'a qop list \<Rightarrow> ('a qout list \<times> 'a chan) option" where
  "run_ops q [] = Some ([], q)"
| "run_ops q (Enqueue x # ops) =
     (case tryEnqueue q x of
        None \<Rightarrow> None
      | Some (old, q') \<Rightarrow>
          (case run_ops q' ops of
             None \<Rightarrow> None
           | Some (outs, q'') \<Rightarrow>
               Some ((case old of None \<Rightarrow> [] | Some y \<Rightarrow> [Evicted y]) @ outs, q'')))"
| "run_ops q (Dequeue # ops) =
     (case dequeue q of
        None \<Rightarrow> None
      | Some (x, q') \<Rightarrow>
          (case run_ops q' ops of
             None \<Rightarrow> None
           | Some (outs, q'') \<Rightarrow> Some (Delivered x # outs, q'')))"

section \<open>The enqueue, one channel operation at a time\<close>

text \<open>
  The three channel operations of the enqueue are separate steps of the fetcher, and the
  player may receive between them. The position of the fetcher inside the enqueue:
  outside it, after the \<^verbatim>\<open>default\<close> branch was taken (about to receive), after the
  receive (about to send). \<open>Offer x\<close> is the \<^verbatim>\<open>select\<close> with its non-blocking send,
  \<open>Advance\<close> the next blocking operation of the \<^verbatim>\<open>default\<close> branch, \<open>Receive\<close> the
  receive of the player. A step that would block is not enabled: \<open>None\<close>.
\<close>

datatype 'a enq_pc = Idle | Evicting 'a | Sending 'a

datatype 'a chan_op = Offer 'a | Advance | Receive

fun chan_step :: "'a chan \<times> 'a enq_pc \<Rightarrow> 'a chan_op \<Rightarrow> ('a chan \<times> 'a enq_pc) option" where
  "chan_step (q, Idle) (Offer x) =
     (case chan_send q x of Some q' \<Rightarrow> Some (q', Idle) | None \<Rightarrow> Some (q, Evicting x))"
| "chan_step (q, Evicting x) Advance =
     (case chan_recv q of None \<Rightarrow> None | Some (old, q') \<Rightarrow> Some (q', Sending x))"
| "chan_step (q, Sending x) Advance =
     (case chan_send q x of None \<Rightarrow> None | Some q' \<Rightarrow> Some (q', Idle))"
| "chan_step (q, pc) Receive =
     (case chan_recv q of None \<Rightarrow> None | Some (y, q') \<Rightarrow> Some (q', pc))"
| "chan_step (q, pc) a = None"

fun chan_run :: "'a chan \<times> 'a enq_pc \<Rightarrow> 'a chan_op list \<Rightarrow> ('a chan \<times> 'a enq_pc) option" where
  "chan_run s [] = Some s"
| "chan_run s (a # as) = (case chan_step s a of None \<Rightarrow> None | Some s' \<Rightarrow> chan_run s' as)"

text \<open>
  What a run of single channel operations shows from outside: the calls the fetcher
  offered, in order; the call it still holds inside an unfinished enqueue; and the calls
  that left the queue, in the order they left, each evicted by the receive of the
  \<^verbatim>\<open>default\<close> branch or delivered to the player.
\<close>

fun offered :: "'a chan_op list \<Rightarrow> 'a list" where
  "offered [] = []"
| "offered (Offer x # as) = x # offered as"
| "offered (Advance # as) = offered as"
| "offered (Receive # as) = offered as"

fun in_flight :: "'a enq_pc \<Rightarrow> 'a list" where
  "in_flight Idle = []"
| "in_flight (Evicting x) = [x]"
| "in_flight (Sending x) = [x]"

fun step_out :: "'a chan \<times> 'a enq_pc \<Rightarrow> 'a chan_op \<Rightarrow> 'a qout list" where
  "step_out (q, Evicting x) Advance = (case buf q of [] \<Rightarrow> [] | y # ys \<Rightarrow> [Evicted y])"
| "step_out (q, pc) Receive = (case buf q of [] \<Rightarrow> [] | y # ys \<Rightarrow> [Delivered y])"
| "step_out (q, pc) a = []"

fun chan_outs :: "'a chan \<times> 'a enq_pc \<Rightarrow> 'a chan_op list \<Rightarrow> 'a qout list" where
  "chan_outs s [] = []"
| "chan_outs s (a # as) =
     (case chan_step s a of None \<Rightarrow> [] | Some s' \<Rightarrow> step_out s a @ chan_outs s' as)"

section \<open>The Deduplication Ledger: \<^verbatim>\<open>sync.Map\<close>\<close>

type_synonym ledger = "string \<rightharpoonup> bool"

definition Store :: "ledger \<Rightarrow> string \<Rightarrow> bool \<Rightarrow> ledger" where
  "Store m k v = m(k \<mapsto> v)"

text \<open>\<^verbatim>\<open>LoadOrStore\<close> returns the value now under the key and whether it was loaded.\<close>

definition LoadOrStore :: "ledger \<Rightarrow> string \<Rightarrow> bool \<Rightarrow> (bool \<times> bool) \<times> ledger" where
  "LoadOrStore m k v =
     (case m k of Some a \<Rightarrow> ((a, True), m) | None \<Rightarrow> ((v, False), m(k \<mapsto> v)))"

text \<open>
  A sequence of ledger operations, as \<^verbatim>\<open>fetchCalls\<close> issues them (no entry is ever
  deleted); the result lists the keys for which \<open>LoadOrStore\<close> reported "not loaded",
  that is, newly marked.
\<close>

datatype lop = OpStore string | OpLoadOrStore string

fun newly_marked :: "ledger \<Rightarrow> lop list \<Rightarrow> string list" where
  "newly_marked m [] = []"
| "newly_marked m (OpStore k # ops) = newly_marked (Store m k True) ops"
| "newly_marked m (OpLoadOrStore k # ops) =
     (case LoadOrStore m k True of
        ((_, loaded), m') \<Rightarrow> (if loaded then [] else [k]) @ newly_marked m' ops)"

section \<open>\<^verbatim>\<open>fetchJSON\<close> (main.go, lines 68-128)\<close>

datatype error =
    ErrMarshal | ErrNewRequest | ErrDo | ErrStatus nat | ErrReadBody
  | ErrNoPreTags | ErrUnquote

text \<open>A call returns a value, returns an error, or panics.\<close>

datatype 'a outcome = Ok 'a | Error error | Panic

text \<open>
  What the proxy did with the request: one of the three steps before the response
  failed, or a response with its status code and its body as \<^verbatim>\<open>io.ReadAll\<close>
  returned it (\<open>None\<close> when the read failed).
\<close>

datatype http_result =
    MarshalFailed | NewRequestFailed | DoFailed
  | Response nat "string option"

fun has_prefix :: "string \<Rightarrow> string \<Rightarrow> bool" where
  "has_prefix s [] = True"
| "has_prefix [] (p # ps) = False"
| "has_prefix (c # cs) (p # ps) = (c = p \<and> has_prefix cs ps)"

fun index_from :: "nat \<Rightarrow> string \<Rightarrow> string \<Rightarrow> int" where
  "index_from n [] sub = (if sub = [] then int n else - 1)"
| "index_from n (c # cs) sub =
     (if has_prefix (c # cs) sub then int n else index_from (Suc n) cs sub)"

text \<open>\<^verbatim>\<open>strings.Index\<close>: the position of the first occurrence, or -1.\<close>

definition Index :: "string \<Rightarrow> string \<Rightarrow> int" where
  "Index s sub = index_from 0 s sub"

text \<open>The slice expression \<^verbatim>\<open>s[lo:hi]\<close> panics unless \<open>0 \<le> lo \<le> hi \<le> len(s)\<close>.\<close>

definition slice :: "string \<Rightarrow> int \<Rightarrow> int \<Rightarrow> string option" where
  "slice s lo hi =
     (if 0 \<le> lo \<and> lo \<le> hi \<and> hi \<le> int (length s)
      then Some (take (nat (hi - lo)) (drop (nat lo) s)) else None)"

text \<open>
  \<^verbatim>\<open>strconv.Unquote\<close> is a parameter: it returns the unquoted string, or \<open>None\<close>
  for its error.
\<close>

definition fetchJSON :: "(string \<Rightarrow> string option) \<Rightarrow> http_result \<Rightarrow> string outcome" where
  "fetchJSON Unquote r =
     (case r of
        MarshalFailed \<Rightarrow> Error ErrMarshal
      | NewRequestFailed \<Rightarrow> Error ErrNewRequest
      | DoFailed \<Rightarrow> Error ErrDo
      | Response code rd \<Rightarrow>
          if code \<noteq> 200 then Error (ErrStatus code)
          else (case rd of
                  None \<Rightarrow> Error ErrReadBody
                | Some htmlContent \<Rightarrow>
                    (let startIndex = Index htmlContent ''<pre>'';
                         endIndex = Index htmlContent ''</pre>''
                     in if startIndex = - 1 \<or> endIndex = - 1 then Error ErrNoPreTags
                        else (case slice htmlContent (startIndex + int (length ''<pre>'')) endIndex of
                                None \<Rightarrow> Panic
                              | Some jsonStr \<Rightarrow>
                                  (case Unquote ([CHR 0x22] @ jsonStr @ [CHR 0x22]) of
                                     None \<Rightarrow> Error ErrUnquote
                                   | Some unescapedJSON \<Rightarrow> Ok unescapedJSON)))))"

section \<open>The two loops and the shutdown signal (main.go, lines 159-238 and 285-298)\<close>

text \<open>
  The state shared by the goroutines, the local \<^verbatim>\<open>isFirstRun\<close> of \<^verbatim>\<open>fetchCalls\<close>,
  and whether each loop is still running. The last four fields are history: the calls
  \<^verbatim>\<open>fetchCalls\<close> sent on the queue, the calls it received back and discarded, the
  calls \<^verbatim>\<open>playAudio\<close> received, and the calls it played to the end.
\<close>

record state =
  done_closed :: bool
  isFirstRun :: bool
  processedCalls :: ledger
  queue :: "Call chan"
  fetcher_live :: bool
  player_live :: bool
  sent :: "Call list"
  dropped :: "Call list"
  received :: "Call list"
  played :: "Call list"

definition init_state :: state where
  "init_state =
     \<lparr>done_closed = False, isFirstRun = True, processedCalls = Map.empty,
      queue = make_chan MaxQueueSize, fetcher_live = True, player_live = True,
      sent = [], dropped = [], received = [], played = []\<rparr>"

text \<open>
  Why a step has no next state: it cannot be taken in this state (its goroutine has
  returned, or the case picked cannot proceed); the fetcher blocks for ever inside the
  enqueue; the goroutine panics, which ends the process.
\<close>

datatype fault = NotEnabled | Blocked | Panicked

text \<open>The body of the loop over the listing (main.go, lines 187-208).\<close>

definition processCall :: "state \<Rightarrow> Call \<Rightarrow> fault + state" where
  "processCall st call =
     (if isFirstRun st
      then Inr (st\<lparr>processedCalls := Store (processedCalls st) (ID call) True\<rparr>)
      else (case LoadOrStore (processedCalls st) (ID call) True of
              ((_, exists), m') \<Rightarrow>
                if \<not> exists
                then (case tryEnqueue (queue st) call of
                        None \<Rightarrow> Inl Blocked
                      | Some (old, q') \<Rightarrow>
                          Inr (st\<lparr>processedCalls := m', queue := q',
                                  sent := sent st @ [call],
                                  dropped := dropped st @ (case old of None \<Rightarrow> [] | Some y \<Rightarrow> [y])\<rparr>))
                else Inr (st\<lparr>processedCalls := m'\<rparr>)))"

fun rangeCalls :: "state \<Rightarrow> Call list \<Rightarrow> fault + state" where
  "rangeCalls st [] = Inr st"
| "rangeCalls st (call # calls) =
     (case processCall st call of Inl f \<Rightarrow> Inl f | Inr st' \<Rightarrow> rangeCalls st' calls)"

text \<open>
  A \<^verbatim>\<open>select\<close> proceeds with one of the cases that can proceed, chosen by the
  runtime, and blocks while there is none. The cases of the two loops that can
  proceed: \<^verbatim>\<open><-done\<close> once the channel is closed, \<^verbatim>\<open><-time.After(FetchInterval)\<close>
  once the timer has fired, \<^verbatim>\<open><-queue\<close> while the buffer is not empty.
\<close>

datatype select_case = CaseDone | CaseTimer | CaseQueue

definition fetchCalls_ready :: "state \<Rightarrow> bool \<Rightarrow> select_case list" where
  "fetchCalls_ready st timer_fired =
     (if done_closed st then [CaseDone] else []) @ (if timer_fired then [CaseTimer] else [])"

definition playAudio_ready :: "state \<Rightarrow> select_case list" where
  "playAudio_ready st =
     (if done_closed st then [CaseDone] else []) @ (if buf (queue st) \<noteq> [] then [CaseQueue] else [])"

text \<open>
  One iteration of the loop of \<^verbatim>\<open>fetchCalls\<close> (main.go, lines 165-214), given whether
  the timer has fired, the case the runtime picked and what the proxy did.
  \<^verbatim>\<open>json.Unmarshal\<close> into \<^verbatim>\<open>CallsResponse\<close> is a parameter: the calls of the
  listing, or \<open>None\<close> for its error. Every \<^verbatim>\<open>continue\<close> leaves the iteration with
  the loop still running; \<^verbatim>\<open>return\<close> ends the loop.
\<close>

definition fetchCalls_iter ::
  "(string \<Rightarrow> string option) \<Rightarrow> (string \<Rightarrow> Call list option) \<Rightarrow>
   state \<Rightarrow> bool \<Rightarrow> select_case \<Rightarrow> http_result \<Rightarrow> fault + state" where
  "fetchCalls_iter Unquote Unmarshal st timer_fired pick r =
     (if \<not> fetcher_live st \<or> pick \<notin> set (fetchCalls_ready st timer_fired) then Inl NotEnabled
      else if pick = CaseDone then Inr (st\<lparr>fetcher_live := False\<rparr>)
      else (case fetchJSON Unquote r of
              Panic \<Rightarrow> Inl Panicked
            | Error e \<Rightarrow> Inr st
            | Ok body \<Rightarrow>
                (case Unmarshal body of
                   None \<Rightarrow> Inr st
                 | Some calls \<Rightarrow>
                     (case rangeCalls st calls of
                        Inl f \<Rightarrow> Inl f
                      | Inr st' \<Rightarrow> Inr (st'\<lparr>isFirstRun := False\<rparr>)))))"

text \<open>
  One iteration of the loop of \<^verbatim>\<open>playAudio\<close> (main.go, lines 218-237), given the
  case the runtime picked and whether \<^verbatim>\<open>playRogerBeep\<close> and \<^verbatim>\<open>playFile\<close>
  return an error.
\<close>

definition playAudio_iter :: "state \<Rightarrow> select_case \<Rightarrow> exec_result \<Rightarrow> exec_result \<Rightarrow> fault + state" where
  "playAudio_iter st pick beep play =
     (if \<not> player_live st \<or> pick \<notin> set (playAudio_ready st) then Inl NotEnabled
      else if pick = CaseDone then Inr (st\<lparr>player_live := False\<rparr>)
      else (case dequeue (queue st) of
              None \<Rightarrow> Inl NotEnabled
            | Some (call, q') \<Rightarrow>
                (let st' = st\<lparr>queue := q', received := received st @ [call]\<rparr>
                 in if beep = ExecErr then Inr st'
                    else if play = ExecErr then Inr st'
                    else Inr (st'\<lparr>played := played st' @ [call]\<rparr>))))"

text \<open>
  The steps of the process once \<^verbatim>\<open>main\<close> has started the two goroutines: the
  interrupt, on which \<^verbatim>\<open>main\<close> closes \<^verbatim>\<open>done\<close> (once), an iteration of the fetcher
  and an iteration of the player, in any order. An iteration is one step: the steps of
  the other goroutine fall between iterations.
\<close>

datatype event =
    Interrupt
  | Fetcher bool select_case http_result
  | Player select_case exec_result exec_result

definition step ::
  "(string \<Rightarrow> string option) \<Rightarrow> (string \<Rightarrow> Call list option) \<Rightarrow> state \<Rightarrow> event \<Rightarrow> fault + state" where
  "step Unquote Unmarshal st ev =
     (case ev of
        Interrupt \<Rightarrow> if done_closed st then Inl NotEnabled else Inr (st\<lparr>done_closed := True\<rparr>)
      | Fetcher timer_fired pick r \<Rightarrow> fetchCalls_iter Unquote Unmarshal st timer_fired pick r
      | Player pick beep play \<Rightarrow> playAudio_iter st pick beep play)"

fun run ::
  "(string \<Rightarrow> string option) \<Rightarrow> (string \<Rightarrow> Call list option) \<Rightarrow> state \<Rightarrow> event list \<Rightarrow> fault + state" where
  "run Unquote Unmarshal st [] = Inr st"
| "run Unquote Unmarshal st (ev # evs) =
     (case step Unquote Unmarshal st ev of
        Inl f \<Rightarrow> Inl f
      | Inr st' \<Rightarrow> run Unquote Unmarshal st' evs)"

text \<open>
  The timer of the fetcher. \<^verbatim>\<open>time.After(FetchInterval)\<close> is evaluated when the
  \<^verbatim>\<open>select\<close> is entered (main.go, line 170), so every \<^verbatim>\<open>select\<close> waits on a
  timer of its own that has not fired yet. A \<^verbatim>\<open>select\<close> entered with \<^verbatim>\<open>done\<close>
  closed proceeds at once with \<^verbatim>\<open><-done\<close>, and a waiting \<^verbatim>\<open>select\<close> proceeds with
  the channel that can be received from first: the timer case is taken only at a moment
  when \<^verbatim>\<open>done\<close> is not closed. \<open>fetchCalls_select\<close> is the case the \<^verbatim>\<open>select\<close>
  takes (\<open>None\<close> while it waits), \<open>fetchCalls_step\<close> the iteration with that case.
\<close>

definition fetchCalls_select :: "state \<Rightarrow> bool \<Rightarrow> select_case option" where
  "fetchCalls_select st timer_fired =
     (if done_closed st then Some CaseDone else if timer_fired then Some CaseTimer else None)"

definition fetchCalls_step ::
  "(string \<Rightarrow> string option) \<Rightarrow> (string \<Rightarrow> Call list option) \<Rightarrow>
   state \<Rightarrow> bool \<Rightarrow> http_result \<Rightarrow> fault + state" where
  "fetchCalls_step Unquote Unmarshal st timer_fired r =
     (case fetchCalls_select st timer_fired of
        None \<Rightarrow> Inl NotEnabled
      | Some pick \<Rightarrow> fetchCalls_iter Unquote Unmarshal st timer_fired pick r)"

text \<open>
  The runs of the process in which every iteration of the fetcher takes the case of its
  \<^verbatim>\<open>select\<close>: a step of the fetcher with another case is not a step of such a run.
\<close>

definition timely :: "state \<Rightarrow> event \<Rightarrow> bool" where
  "timely st ev =
     (case ev of
        Interrupt \<Rightarrow> True
      | Fetcher timer_fired pick r \<Rightarrow> fetchCalls_select st timer_fired = Some pick
      | Player pick beep play \<Rightarrow> True)"


section \<open>Startup: \<^verbatim>\<open>fetchSystems\<close> and \<^verbatim>\<open>main\<close> (main.go, lines 130-157 and 262-299)\<close>

text \<open>
  \<^verbatim>\<open>fetchSystems\<close>, given what the proxy did, the \<^verbatim>\<open>Success\<close> field that
  \<^verbatim>\<open>json.Unmarshal\<close> reads (a parameter, \<open>None\<close> for its error) and the token that
  \<^verbatim>\<open>fmt.Scanln\<close> reads (\<open>None\<close> for its error, as on an empty line).
\<close>

datatype startup_error = FetchFailed error | ParseFailed | ApiFailure | InputFailed

datatype 'a startup_result = Chosen 'a | Failed startup_error | Crashed

definition fetchSystems ::
  "(string \<Rightarrow> string option) \<Rightarrow> (string \<Rightarrow> bool option) \<Rightarrow> http_result \<Rightarrow> string option \<Rightarrow>
   string startup_result" where
  "fetchSystems Unquote UnmarshalSystems r scanned =
     (case fetchJSON Unquote r of
        Panic \<Rightarrow> Crashed
      | Error e \<Rightarrow> Failed (FetchFailed e)
      | Ok body \<Rightarrow>
          (case UnmarshalSystems body of
             None \<Rightarrow> Failed ParseFailed
           | Some success \<Rightarrow>
               if \<not> success then Failed ApiFailure
               else (case scanned of None \<Rightarrow> Failed InputFailed | Some shortName \<Rightarrow> Chosen shortName)))"

text \<open>
  What \<^verbatim>\<open>main\<close> does up to the start of the two goroutines, given whether
  \<^verbatim>\<open>isFlareSolverrRunning\<close> holds, the value of the \<^verbatim>\<open>--shortname\<close> flag and the
  result of \<^verbatim>\<open>fetchSystems\<close> (called only when the flag is empty).
  \<^verbatim>\<open>logger.Fatal\<close> logs its message and exits with status 1; an unrecovered panic
  ends the process with status 2.
\<close>

datatype action = LogFatal | Exit nat | GoFetchCalls string | GoPlayAudio

definition main_startup :: "bool \<Rightarrow> string \<Rightarrow> string startup_result \<Rightarrow> action list" where
  "main_startup flareSolverrRunning shortName systems =
     (if \<not> flareSolverrRunning then [LogFatal, Exit 1]
      else if shortName = []
      then (case systems of
              Failed e \<Rightarrow> [LogFatal, Exit 1]
            | Crashed \<Rightarrow> [Exit 2]
            | Chosen s \<Rightarrow> [GoFetchCalls s, GoPlayAudio])
      else [GoFetchCalls shortName, GoPlayAudio])"

section \<open>The player that downloads and converts (unnamed/part_001, lines 220-309)\<close>

definition AudioFolderPath :: string where
  "AudioFolderPath = ''OpenMHzPi-downloads''"

text \<open>
  \<^verbatim>\<open>filepath.Base\<close>: the last element of the path, trailing slashes removed;
  \<^verbatim>\<open>filepath.Ext\<close>: the suffix of the last element from its last dot;
  \<^verbatim>\<open>strings.TrimSuffix\<close>.
\<close>

definition Base :: "string \<Rightarrow> string" where
  "Base path =
     (if path = [] then ''.''
      else (let b = rev (takeWhile (\<lambda>c. c \<noteq> CHR ''/'') (dropWhile (\<lambda>c. c = CHR ''/'') (rev path)))
            in if b = [] then ''/'' else b))"

definition Ext :: "string \<Rightarrow> string" where
  "Ext path =
     (let t = takeWhile (\<lambda>c. c \<noteq> CHR ''/'') (rev path)
      in if CHR ''.'' \<in> set t then CHR ''.'' # rev (takeWhile (\<lambda>c. c \<noteq> CHR ''.'') t) else [])"

definition TrimSuffix :: "string \<Rightarrow> string \<Rightarrow> string" where
  "TrimSuffix s suf =
     (if length suf \<le> length s \<and> drop (length s - length suf) s = suf
      then take (length s - length suf) s else s)"

text \<open>
  The files of the download folder are a set of paths. \<^verbatim>\<open>downloadFile\<close> creates
  the file once \<^verbatim>\<open>http.Get\<close> has succeeded, so the file exists when the copy fails.
\<close>

datatype download_result = GetFailed | CreateFailed | CopyFailed | DownloadOk

definition downloadFile :: "string set \<Rightarrow> string \<Rightarrow> download_result \<Rightarrow> string set \<times> bool" where
  "downloadFile files path res =
     (case res of
        GetFailed \<Rightarrow> (files, False)
      | CreateFailed \<Rightarrow> (files, False)
      | CopyFailed \<Rightarrow> (insert path files, False)
      | DownloadOk \<Rightarrow> (insert path files, True))"

text \<open>
  \<^verbatim>\<open>convertToMP3\<close> runs \<^verbatim>\<open>ffmpeg\<close>: on success the output file exists; a failed
  run is taken to leave no output file.
\<close>

definition convertToMP3 :: "string set \<Rightarrow> string \<Rightarrow> exec_result \<Rightarrow> string set \<times> bool" where
  "convertToMP3 files outputPath res =
     (case res of ExecOk \<Rightarrow> (insert outputPath files, True) | ExecErr \<Rightarrow> (files, False))"

definition Remove :: "string set \<Rightarrow> string \<Rightarrow> string set" where
  "Remove files path = files - {path}"

text \<open>
  The body of the loop of \<^verbatim>\<open>playAudio\<close> for one received call
  (unnamed/part_001, lines 246-277): the files of the folder after it, given the results
  of the download, of \<^verbatim>\<open>ffmpeg\<close>, of \<^verbatim>\<open>ffprobe\<close> (\<^verbatim>\<open>getTrackLength\<close>) and of
  \<^verbatim>\<open>mpg123\<close> (\<^verbatim>\<open>playFile\<close>).
\<close>

definition playAudio_iter_part_001 ::
  "string set \<Rightarrow> Call \<Rightarrow> download_result \<Rightarrow> exec_result \<Rightarrow> exec_result \<Rightarrow> exec_result \<Rightarrow> string set" where
  "playAudio_iter_part_001 files call dl conv probe play =
     (let filePath = AudioFolderPath @ ''/'' @ Base (Filename call)
      in case downloadFile files filePath dl of
           (files1, False) \<Rightarrow> files1
         | (files1, True) \<Rightarrow>
             (let mp3FilePath = TrimSuffix filePath (Ext filePath) @ ''.mp3''
              in case convertToMP3 files1 mp3FilePath conv of
                   (files2, False) \<Rightarrow> files2
                 | (files2, True) \<Rightarrow>
                     if probe = ExecErr then files2
                     else if play = ExecErr then files2
                     else Remove (Remove files2 filePath) mp3FilePath))"

section \<open>The first player (unnamed/part_000, lines 264-331)\<close>

text \<open>
  The last element of \<^verbatim>\<open>strings.Split(s, "/")\<close>, and \<^verbatim>\<open>strings.Replace\<close> with
  count 1 for a non-empty \<^verbatim>\<open>old\<close>: the first occurrence is replaced.
\<close>

definition last_element :: "string \<Rightarrow> string" where
  "last_element s = rev (takeWhile (\<lambda>c. c \<noteq> CHR ''/'') (rev s))"

fun Replace1 :: "string \<Rightarrow> string \<Rightarrow> string \<Rightarrow> string" where
  "Replace1 [] old new = []"
| "Replace1 (c # cs) old new =
     (if has_prefix (c # cs) old then new @ drop (length old) (c # cs)
      else c # Replace1 cs old new)"

text \<open>
  This \<^verbatim>\<open>downloadFile\<close> creates the file before the request, so the file exists
  when the request or the copy fails.
\<close>

definition downloadFile_part_000 :: "string set \<Rightarrow> string \<Rightarrow> download_result \<Rightarrow> string set \<times> bool" where
  "downloadFile_part_000 files path res =
     (case res of
        CreateFailed \<Rightarrow> (files, False)
      | GetFailed \<Rightarrow> (insert path files, False)
      | CopyFailed \<Rightarrow> (insert path files, False)
      | DownloadOk \<Rightarrow> (insert path files, True))"

text \<open>
  The body of the loop of \<^verbatim>\<open>playAudio\<close> for one received call
  (unnamed/part_000, lines 265-308), given the results of the download, of
  \<^verbatim>\<open>ffmpeg\<close> and of \<^verbatim>\<open>mpg123\<close>.
\<close>

definition playAudio_iter_part_000 ::
  "string set \<Rightarrow> Call \<Rightarrow> download_result \<Rightarrow> exec_result \<Rightarrow> exec_result \<Rightarrow> string set" where
  "playAudio_iter_part_000 files call dl conv play =
     (let m4aPath = ''OpenMHzPi-downloads/'' @ last_element (Filename call);
          mp3Path = Replace1 m4aPath ''.m4a'' ''.mp3''
      in case downloadFile_part_000 files m4aPath dl of
           (files1, False) \<Rightarrow> files1
         | (files1, True) \<Rightarrow>
             (case convertToMP3 files1 mp3Path conv of
                (files2, False) \<Rightarrow> files2
              | (files2, True) \<Rightarrow>
                  if play = ExecErr then files2
                  else Remove (Remove files2 m4aPath) mp3Path))"

section \<open>Sample calls\<close>

text \<open>A call with a given identity, for the closed instances of the theorems.\<close>

definition sample_call :: "string \<Rightarrow> Call" where
  "sample_call i = \<lparr>ID = i, URL = ''https://media.example/'' @ i, Filename = i @ ''.m4a'', Time = []\<rparr>"

text \<open>
  Stand-ins for the two library functions, for the closed instances: the first strips
  the surrounding double quotes and fails on a backslash, the second reads every
  character as the identity of one call and fails on an exclamation mark.
\<close>

definition sample_Unquote :: "string \<Rightarrow> string option" where
  "sample_Unquote s =
     (if 2 \<le> length s \<and> hd s = CHR 0x22 \<and> last s = CHR 0x22 \<and> CHR 0x5C \<notin> set s
      then Some (butlast (tl s)) else None)"

definition sample_Unmarshal :: "string \<Rightarrow> Call list option" where
  "sample_Unmarshal s = (if CHR ''!'' \<in> set s then None else Some (map (\<lambda>c. sample_call [c]) s))"

text \<open>A response of the proxy with status 200 and the given text between the markers.\<close>

definition listing :: "string \<Rightarrow> http_result" where
  "listing ids = Response 200 (Some (''<html><body><pre>'' @ ids @ ''</pre></body></html>''))"

text \<open>
  The state after a priming cycle that listed X and Y, and the state after a following
  cycle that listed X, Y and Z.
\<close>

definition primed_state :: state where
  "primed_state =
     init_state\<lparr>isFirstRun := False, processedCalls := [''X'' \<mapsto> True, ''Y'' \<mapsto> True]\<rparr>"

definition steady_state :: state where
  "steady_state =
     init_state\<lparr>isFirstRun := False,
                processedCalls := [''X'' \<mapsto> True, ''Y'' \<mapsto> True, ''Z'' \<mapsto> True],
                queue := \<lparr>buf = [sample_call ''Z''], cap = MaxQueueSize\<rparr>,
                sent := [sample_call ''Z'']\<rparr>"

section \<open>The queue in isolation\<close>

lemma tryEnqueue_SomeD:
  assumes "tryEnqueue q x = Some (old, q')"
  shows "cap q' = cap q \<and>
         ((old = None \<and> length (buf q) < cap q \<and> buf q' = buf q @ [x]) \<or>
          (\<exists>y ys. old = Some y \<and> \<not> length (buf q) < cap q \<and> buf q = y # ys \<and> buf q' = ys @ [x]))"
  using assms
  by (auto simp: tryEnqueue_def chan_send_def chan_recv_def split: if_splits list.splits option.splits)

lemma dequeue_SomeD:
  "dequeue q = Some (x, q') \<Longrightarrow> cap q' = cap q \<and> buf q = x # buf q'"
  by (auto simp: dequeue_def chan_recv_def split: list.splits)

lemma tryEnqueue_bounded:
  assumes "tryEnqueue q x = Some (old, q')" and "length (buf q) \<le> cap q"
  shows "length (buf q') \<le> cap q' \<and> cap q' = cap q"
  using tryEnqueue_SomeD[OF assms(1)] assms(2) by auto

lemma tryEnqueue_order:
  assumes "tryEnqueue q x = Some (old, q')"
  shows "(case old of None \<Rightarrow> [] | Some y \<Rightarrow> [y]) @ buf q' = buf q @ [x]"
  using tryEnqueue_SomeD[OF assms(1)] by auto

lemma tryEnqueue_room:
  "length (buf q) < cap q \<Longrightarrow> tryEnqueue q x = Some (None, q\<lparr>buf := buf q @ [x]\<rparr>)"
  by (simp add: tryEnqueue_def chan_send_def)

lemma tryEnqueue_full:
  assumes "length (buf q) = cap q" and "0 < cap q"
  shows "tryEnqueue q x = Some (Some (hd (buf q)), q\<lparr>buf := tl (buf q) @ [x]\<rparr>)"
proof -
  from assms obtain y ys where b: "buf q = y # ys"
    by (cases "buf q") auto
  with assms have "length ys < cap q" by auto
  with assms b show ?thesis
    by (simp add: tryEnqueue_def chan_send_def chan_recv_def)
qed


lemma run_ops_bounded:
  "run_ops q ops = Some (outs, q') \<Longrightarrow> length (buf q) \<le> cap q \<Longrightarrow>
     length (buf q') \<le> cap q' \<and> cap q' = cap q"
proof (induction q ops arbitrary: outs q' rule: run_ops.induct)
  case (1 q)
  then show ?case by simp
next
  case (2 q x ops)
  from "2.prems"(1) obtain old q1 outs1 where
    e: "tryEnqueue q x = Some (old, q1)" and r: "run_ops q1 ops = Some (outs1, q')"
    by (auto split: option.splits prod.splits)
  from tryEnqueue_bounded[OF e "2.prems"(2)] have b: "length (buf q1) \<le> cap q1" and c: "cap q1 = cap q"
    by simp_all
  from "2.IH"[OF e refl r b] c show ?case by simp
next
  case (3 q ops)
  from "3.prems"(1) obtain x q1 outs1 where
    e: "dequeue q = Some (x, q1)" and r: "run_ops q1 ops = Some (outs1, q')"
    by (auto split: option.splits prod.splits)
  from dequeue_SomeD[OF e] "3.prems"(2) have b: "length (buf q1) \<le> cap q1" and c: "cap q1 = cap q"
    by simp_all
  from "3.IH"[OF e refl r b] c show ?case by simp
qed

lemma run_ops_order:
  "run_ops q ops = Some (outs, q') \<Longrightarrow> map removed outs @ buf q' = buf q @ enqueued ops"
proof (induction q ops arbitrary: outs q' rule: run_ops.induct)
  case (1 q)
  then show ?case by simp
next
  case (2 q x ops)
  from "2.prems"(1) obtain old q1 outs1 where
    e: "tryEnqueue q x = Some (old, q1)" and r: "run_ops q1 ops = Some (outs1, q')"
    and o: "outs = (case old of None \<Rightarrow> [] | Some y \<Rightarrow> [Evicted y]) @ outs1"
    by (auto split: option.splits prod.splits)
  have "map removed outs @ buf q' = (case old of None \<Rightarrow> [] | Some y \<Rightarrow> [y]) @ map removed outs1 @ buf q'"
    using o by (cases old) simp_all
  also have "\<dots> = (case old of None \<Rightarrow> [] | Some y \<Rightarrow> [y]) @ buf q1 @ enqueued ops"
    using "2.IH"[OF e refl r] by simp
  also have "\<dots> = buf q @ enqueued (Enqueue x # ops)"
    using tryEnqueue_order[OF e] by simp
  finally show ?case .
next
  case (3 q ops)
  from "3.prems"(1) obtain x q1 outs1 where
    e: "dequeue q = Some (x, q1)" and r: "run_ops q1 ops = Some (outs1, q')"
    and o: "outs = Delivered x # outs1"
    by (auto split: option.splits prod.splits)
  from "3.IH"[OF e refl r] dequeue_SomeD[OF e] o show ?case by simp
qed

lemma delivered_subseq: "subseq (delivered outs) (map removed outs)"
  by (induction outs rule: delivered.induct) auto

lemma set_evicted_delivered: "set (map removed outs) = set (evicted outs) \<union> set (delivered outs)"
  by (induction outs rule: delivered.induct) auto

lemma delivered_filter:
  "distinct (map removed outs) \<Longrightarrow>
     delivered outs = filter (\<lambda>x. x \<notin> set (evicted outs)) (map removed outs)"
proof (induction outs rule: delivered.induct)
  case 1
  then show ?case by simp
next
  case (2 x outs)
  then have "x \<notin> set (evicted outs)" using set_evicted_delivered[of outs] by auto
  with 2 show ?case by auto
next
  case (3 x outs)
  then have "x \<notin> set (delivered outs)" using set_evicted_delivered[of outs] by auto
  with 3 show ?case by (auto intro: filter_cong)
qed

subsection \<open>One channel operation at a time\<close>

lemma chan_step_bounded:
  assumes "chan_step (q, pc) a = Some (q', pc')" and "length (buf q) \<le> cap q"
  shows "length (buf q') \<le> cap q' \<and> cap q' = cap q"
  using assms
  by (cases pc; cases a)
     (auto simp: chan_send_def chan_recv_def split: option.splits if_splits list.splits)

lemma chan_run_bounded:
  "chan_run s as = Some s' \<Longrightarrow> length (buf (fst s)) \<le> cap (fst s) \<Longrightarrow>
     length (buf (fst s')) \<le> cap (fst s') \<and> cap (fst s') = cap (fst s)"
proof (induction as arbitrary: s)
  case Nil
  then show ?case by simp
next
  case (Cons a as)
  from Cons.prems(1) obtain s1 where st: "chan_step s a = Some s1" and r: "chan_run s1 as = Some s'"
    by (auto split: option.splits)
  from chan_step_bounded[of "fst s" "snd s" a "fst s1" "snd s1"] st Cons.prems(2)
  have b: "length (buf (fst s1)) \<le> cap (fst s1)" and c: "cap (fst s1) = cap (fst s)"
    by simp_all
  from Cons.IH[OF r b] c show ?case by simp
qed

text \<open>Run with no step of the player between its operations, the enqueue is \<open>tryEnqueue\<close>.\<close>

lemma tryEnqueue_steps:
  "chan_run (q, Idle) (Offer x # (if length (buf q) < cap q then [] else [Advance, Advance])) =
     map_option (\<lambda>(old, q'). (q', Idle)) (tryEnqueue q x)"
  by (auto simp: tryEnqueue_def chan_send_def chan_recv_def split: list.splits)

text \<open>
  With a receive of the player between the failed send and the receive of the
  \<^verbatim>\<open>default\<close> branch, the enqueue still removes one call, the head at that moment.
\<close>

lemma interleaved_enqueue:
  "chan_run (\<lparr>buf = [a, b], cap = 2\<rparr>, Idle) [Offer c, Receive, Advance, Advance] =
     Some (\<lparr>buf = [c], cap = 2\<rparr>, Idle)"
  by (simp add: chan_send_def chan_recv_def)

subsection \<open>The order of the calls, one channel operation at a time\<close>

lemma chan_step_order:
  assumes "chan_step (q, pc) a = Some (q', pc')"
  shows "map removed (step_out (q, pc) a) @ buf q' @ in_flight pc' =
           buf q @ in_flight pc @ offered [a]"
  using assms
  by (cases pc; cases a)
     (auto simp: chan_send_def chan_recv_def split: option.splits if_splits list.splits)

lemma chan_run_order:
  "chan_run s as = Some s' \<Longrightarrow>
     map removed (chan_outs s as) @ buf (fst s') @ in_flight (snd s') =
       buf (fst s) @ in_flight (snd s) @ offered as"
proof (induction as arbitrary: s)
  case Nil
  then show ?case by simp
next
  case (Cons a as)
  from Cons.prems obtain s1 where st: "chan_step s a = Some s1" and r: "chan_run s1 as = Some s'"
    by (auto split: option.splits)
  from chan_step_order[of "fst s" "snd s" a "fst s1" "snd s1"] st
  have o: "map removed (step_out s a) @ buf (fst s1) @ in_flight (snd s1) =
      buf (fst s) @ in_flight (snd s) @ offered [a]"
    by simp
  have split: "offered (a # as) = offered [a] @ offered as"
    by (cases a) simp_all
  have "map removed (chan_outs s (a # as)) @ buf (fst s') @ in_flight (snd s') =
      map removed (step_out s a) @ (map removed (chan_outs s1 as) @ buf (fst s') @ in_flight (snd s'))"
    using st by simp
  also have "\<dots> = map removed (step_out s a) @ (buf (fst s1) @ in_flight (snd s1) @ offered as)"
    using Cons.IH[OF r] by simp
  also have "\<dots> = (buf (fst s) @ in_flight (snd s) @ offered [a]) @ offered as"
    using o by (metis append.assoc)
  finally show ?case using split by simp
qed

text \<open>
  From the order in which calls left: the delivered calls are the calls that entered,
  with the evicted and the remaining ones left out.
\<close>

lemma delivered_of_order:
  assumes "map removed outs @ rest = xs" and "distinct xs"
  shows "delivered outs = filter (\<lambda>x. x \<notin> set (evicted outs) \<and> x \<notin> set rest) xs"
proof -
  from assms have d1: "distinct (map removed outs)"
    and dj: "set (map removed outs) \<inter> set rest = {}"
    by (metis distinct_append)+
  have "filter (\<lambda>x. x \<notin> set (evicted outs) \<and> x \<notin> set rest) (map removed outs @ rest)
      = filter (\<lambda>x. x \<notin> set (evicted outs) \<and> x \<notin> set rest) (map removed outs)"
    by (simp add: filter_empty_conv)
  also have "\<dots> = filter (\<lambda>x. x \<notin> set (evicted outs)) (map removed outs)"
    using dj by (intro filter_cong) auto
  also have "\<dots> = delivered outs"
    using delivered_filter[OF d1] by simp
  finally show ?thesis using assms(1) by simp
qed

lemma delivered_subseq_of_order:
  assumes "map removed outs @ rest = xs"
  shows "subseq (delivered outs) xs"
  using list_emb_prefix[OF delivered_subseq[of outs], of rest] assms by simp

section \<open>The enqueue into a full queue\<close>




section \<open>The running process\<close>

subsection \<open>processCall\<close>

lemma processCall_priming:
  "isFirstRun st \<Longrightarrow>
     processCall st c = Inr (st\<lparr>processedCalls := (processedCalls st)(ID c \<mapsto> True)\<rparr>)"
  by (simp add: processCall_def Store_def)

lemma processCall_seen:
  "\<not> isFirstRun st \<Longrightarrow> processedCalls st (ID c) = Some v \<Longrightarrow> processCall st c = Inr st"
  by (simp add: processCall_def LoadOrStore_def)

lemma processCall_new:
  "\<not> isFirstRun st \<Longrightarrow> processedCalls st (ID c) = None \<Longrightarrow>
     processCall st c =
       (case tryEnqueue (queue st) c of
          None \<Rightarrow> Inl Blocked
        | Some (old, q') \<Rightarrow>
            Inr (st\<lparr>processedCalls := (processedCalls st)(ID c \<mapsto> True), queue := q',
                    sent := sent st @ [c],
                    dropped := dropped st @ (case old of None \<Rightarrow> [] | Some y \<Rightarrow> [y])\<rparr>))"
  by (simp add: processCall_def LoadOrStore_def)

text \<open>The three ways an iteration of the range loop can end.\<close>

lemma processCall_InrE:
  assumes "processCall st c = Inr st'"
  obtains
    (priming) "isFirstRun st" "st' = st\<lparr>processedCalls := (processedCalls st)(ID c \<mapsto> True)\<rparr>"
  | (seen) v where "\<not> isFirstRun st" "processedCalls st (ID c) = Some v" "st' = st"
  | (new) old q' where "\<not> isFirstRun st" "processedCalls st (ID c) = None"
      "tryEnqueue (queue st) c = Some (old, q')"
      "st' = st\<lparr>processedCalls := (processedCalls st)(ID c \<mapsto> True), queue := q',
                 sent := sent st @ [c],
                 dropped := dropped st @ (case old of None \<Rightarrow> [] | Some y \<Rightarrow> [y])\<rparr>"
proof (cases "isFirstRun st")
  case True
  from assms have "st' = st\<lparr>processedCalls := (processedCalls st)(ID c \<mapsto> True)\<rparr>"
    unfolding processCall_priming[OF True] by simp
  from priming[OF True this] show ?thesis .
next
  case False
  show ?thesis
  proof (cases "processedCalls st (ID c)")
    case None
    from assms False None obtain old q' where
      t: "tryEnqueue (queue st) c = Some (old, q')"
      by (cases "tryEnqueue (queue st) c") (auto simp: processCall_new)
    from assms have
      "st' = st\<lparr>processedCalls := (processedCalls st)(ID c \<mapsto> True), queue := q',
                 sent := sent st @ [c],
                 dropped := dropped st @ (case old of None \<Rightarrow> [] | Some y \<Rightarrow> [y])\<rparr>"
      unfolding processCall_new[OF False None] t by simp
    from new[OF False None t this] show ?thesis .
  next
    case (Some v)
    from assms have "st' = st"
      unfolding processCall_seen[OF False Some] by simp
    from seen[OF False Some this] show ?thesis .
  qed
qed

subsection \<open>Invariants of a run\<close>

lemma rangeCalls_invariant:
  assumes "rangeCalls st cs = Inr st'" and "I st"
    and "\<And>s c s'. I s \<Longrightarrow> processCall s c = Inr s' \<Longrightarrow> I s'"
  shows "I st'"
  using assms(1,2)
proof (induction cs arbitrary: st)
  case Nil
  then show ?case by simp
next
  case (Cons c cs)
  from Cons.prems(1) obtain s1 where p: "processCall st c = Inr s1" and r: "rangeCalls s1 cs = Inr st'"
    by (auto split: sum.splits)
  from assms(3)[OF Cons.prems(2) p] have "I s1" .
  from Cons.IH[OF r this] show ?case .
qed

lemma step_invariant:
  assumes "step U M st ev = Inr st'" and "I st"
    and pc: "\<And>s c s'. I s \<Longrightarrow> processCall s c = Inr s' \<Longrightarrow> I s'"
    and cl: "\<And>s. I s \<Longrightarrow> I (s\<lparr>done_closed := True\<rparr>)"
    and fl: "\<And>s. I s \<Longrightarrow> I (s\<lparr>fetcher_live := False\<rparr>)"
    and pl: "\<And>s. I s \<Longrightarrow> I (s\<lparr>player_live := False\<rparr>)"
    and fr: "\<And>s. I s \<Longrightarrow> I (s\<lparr>isFirstRun := False\<rparr>)"
    and dq: "\<And>s c q'. I s \<Longrightarrow> dequeue (queue s) = Some (c, q') \<Longrightarrow>
               I (s\<lparr>queue := q', received := received s @ [c]\<rparr>)"
    and py: "\<And>s c. I s \<Longrightarrow> I (s\<lparr>played := played s @ [c]\<rparr>)"
  shows "I st'"
proof (cases ev)
  case Interrupt
  with assms(1,2) cl show ?thesis
    by (auto simp: step_def split: if_splits)
next
  case (Fetcher fired pick r)
  with assms(1) have it: "fetchCalls_iter U M st fired pick r = Inr st'"
    by (simp add: step_def)
  show ?thesis
  proof (cases "pick = CaseDone")
    case True
    with it assms(2) fl show ?thesis
      by (auto simp: fetchCalls_iter_def split: if_splits)
  next
    case False
    with it have
      "st' = st \<or> (\<exists>calls s1. rangeCalls st calls = Inr s1 \<and> st' = s1\<lparr>isFirstRun := False\<rparr>)"
      by (auto simp: fetchCalls_iter_def split: if_splits outcome.splits option.splits sum.splits)
    then show ?thesis
    proof
      assume "st' = st"
      with assms(2) show ?thesis by simp
    next
      assume "\<exists>calls s1. rangeCalls st calls = Inr s1 \<and> st' = s1\<lparr>isFirstRun := False\<rparr>"
      then obtain calls s1 where r: "rangeCalls st calls = Inr s1" and e: "st' = s1\<lparr>isFirstRun := False\<rparr>"
        by blast
      from rangeCalls_invariant[of st calls s1 I, OF r assms(2) pc] have "I s1" .
      with e fr show ?thesis by simp
    qed
  qed
next
  case (Player pick beep play)
  with assms(1) have it: "playAudio_iter st pick beep play = Inr st'"
    by (simp add: step_def)
  show ?thesis
  proof (cases "pick = CaseDone")
    case True
    with it assms(2) pl show ?thesis
      by (auto simp: playAudio_iter_def split: if_splits)
  next
    case False
    with it obtain c q' where d: "dequeue (queue st) = Some (c, q')"
      and e: "st' = st\<lparr>queue := q', received := received st @ [c]\<rparr> \<or>
              st' = st\<lparr>queue := q', received := received st @ [c], played := played st @ [c]\<rparr>"
      by (auto simp: playAudio_iter_def Let_def split: if_splits option.splits)
    from dq[OF assms(2) d] have i1: "I (st\<lparr>queue := q', received := received st @ [c]\<rparr>)" .
    from py[OF i1, of c] have "I (st\<lparr>queue := q', received := received st @ [c], played := played st @ [c]\<rparr>)"
      by simp
    with i1 e show ?thesis by auto
  qed
qed

lemma run_invariant:
  assumes "run U M st evs = Inr st'" and "I st"
    and pc: "\<And>s c s'. I s \<Longrightarrow> processCall s c = Inr s' \<Longrightarrow> I s'"
    and cl: "\<And>s. I s \<Longrightarrow> I (s\<lparr>done_closed := True\<rparr>)"
    and fl: "\<And>s. I s \<Longrightarrow> I (s\<lparr>fetcher_live := False\<rparr>)"
    and pl: "\<And>s. I s \<Longrightarrow> I (s\<lparr>player_live := False\<rparr>)"
    and fr: "\<And>s. I s \<Longrightarrow> I (s\<lparr>isFirstRun := False\<rparr>)"
    and dq: "\<And>s c q'. I s \<Longrightarrow> dequeue (queue s) = Some (c, q') \<Longrightarrow>
               I (s\<lparr>queue := q', received := received s @ [c]\<rparr>)"
    and py: "\<And>s c. I s \<Longrightarrow> I (s\<lparr>played := played s @ [c]\<rparr>)"
  shows "I st'"
  using assms(1,2)
proof (induction evs arbitrary: st)
  case Nil
  then show ?case by simp
next
  case (Cons ev evs)
  from Cons.prems(1) obtain s1 where s: "step U M st ev = Inr s1" and r: "run U M s1 evs = Inr st'"
    by (auto split: sum.splits)
  from step_invariant[of U M st ev s1 I, OF s Cons.prems(2) pc cl fl pl fr dq py] have "I s1" .
  from Cons.IH[OF r this] show ?case .
qed

subsection \<open>The priming cycle\<close>

lemma rangeCalls_priming:
  "isFirstRun st \<Longrightarrow>
     rangeCalls st cs =
       Inr (st\<lparr>processedCalls := foldl (\<lambda>m c. Store m (ID c) True) (processedCalls st) cs\<rparr>)"
proof (induction cs arbitrary: st)
  case Nil
  then show ?case by simp
next
  case (Cons c cs)
  let ?s1 = "st\<lparr>processedCalls := Store (processedCalls st) (ID c) True\<rparr>"
  from Cons.prems have f: "isFirstRun ?s1" by simp
  from Cons.prems have "rangeCalls st (c # cs) = rangeCalls ?s1 cs"
    by (simp add: processCall_def)
  also have "\<dots> = Inr (st\<lparr>processedCalls := foldl (\<lambda>m c. Store m (ID c) True) (processedCalls st) (c # cs)\<rparr>)"
    unfolding Cons.IH[OF f] by simp
  finally show ?case .
qed

lemma foldl_Store:
  "foldl (\<lambda>m c. Store m (ID c) True) m cs k =
     (if k \<in> ID ` set cs then Some True else m k)"
  by (induction cs arbitrary: m) (auto simp: Store_def)

lemma fetchCalls_iter_priming:
  assumes "fetcher_live st" and "isFirstRun st"
    and "fetchJSON U r = Ok body" and "M body = Some calls"
  shows "step U M st (Fetcher True CaseTimer r) =
           Inr (st\<lparr>processedCalls := foldl (\<lambda>m c. Store m (ID c) True) (processedCalls st) calls,
                   isFirstRun := False\<rparr>)"
  using assms
  by (simp add: step_def fetchCalls_iter_def fetchCalls_ready_def rangeCalls_priming)

lemma step_Fetcher_TimerD:
  assumes "step U M st (Fetcher fired CaseTimer r) = Inr st'"
  shows "fetcher_live st \<and> fired \<and>
         (st' = st \<and> (\<forall>body. fetchJSON U r = Ok body \<longrightarrow> M body = None)
          \<or> (\<exists>body calls s1. fetchJSON U r = Ok body \<and> M body = Some calls
                \<and> rangeCalls st calls = Inr s1 \<and> st' = s1\<lparr>isFirstRun := False\<rparr>))"
  using assms
  by (auto simp: step_def fetchCalls_iter_def fetchCalls_ready_def
           split: if_splits outcome.splits option.splits sum.splits)

subsection \<open>Invariants\<close>

text \<open>Nothing is sent on the queue while \<open>isFirstRun\<close> holds.\<close>

lemma priming_sends_nothing:
  assumes "run U M st evs = Inr st'" and "isFirstRun st \<longrightarrow> sent st = []"
  shows "isFirstRun st' \<longrightarrow> sent st' = []"
proof (rule run_invariant[of U M st evs st' "\<lambda>s. isFirstRun s \<longrightarrow> sent s = []", OF assms])
  fix s c s'
  assume "isFirstRun s \<longrightarrow> sent s = []" and "processCall s c = Inr s'"
  then show "isFirstRun s' \<longrightarrow> sent s' = []"
    by (elim processCall_InrE) auto
qed simp_all

text \<open>The calls sent have distinct identities, all in the ledger.\<close>

lemma sent_distinct:
  assumes "run U M st evs = Inr st'"
    and "distinct (map ID (sent st)) \<and> ID ` set (sent st) \<subseteq> dom (processedCalls st)"
  shows "distinct (map ID (sent st')) \<and> ID ` set (sent st') \<subseteq> dom (processedCalls st')"
proof (rule run_invariant[of U M st evs st'
      "\<lambda>s. distinct (map ID (sent s)) \<and> ID ` set (sent s) \<subseteq> dom (processedCalls s)", OF assms])
  fix s c s'
  assume i: "distinct (map ID (sent s)) \<and> ID ` set (sent s) \<subseteq> dom (processedCalls s)"
    and p: "processCall s c = Inr s'"
  from p show "distinct (map ID (sent s')) \<and> ID ` set (sent s') \<subseteq> dom (processedCalls s')"
  proof (cases rule: processCall_InrE)
    case priming
    with i show ?thesis by auto
  next
    case (seen v)
    with i show ?thesis by simp
  next
    case (new old q')
    from new(2) i have "ID c \<notin> ID ` set (sent s)" by auto
    with new(4) i show ?thesis by auto
  qed
qed simp_all

text \<open>Identities in the ledger once the priming is over are never sent afterwards.\<close>

lemma marked_never_sent:
  assumes "run U M st evs = Inr st'"
    and "\<not> isFirstRun st \<and> P \<subseteq> dom (processedCalls st) \<and> (\<forall>c\<in>set (sent st). ID c \<notin> P)"
  shows "\<not> isFirstRun st' \<and> P \<subseteq> dom (processedCalls st') \<and> (\<forall>c\<in>set (sent st'). ID c \<notin> P)"
proof (rule run_invariant[of U M st evs st'
      "\<lambda>s. \<not> isFirstRun s \<and> P \<subseteq> dom (processedCalls s) \<and> (\<forall>c\<in>set (sent s). ID c \<notin> P)", OF assms])
  fix s c s'
  assume i: "\<not> isFirstRun s \<and> P \<subseteq> dom (processedCalls s) \<and> (\<forall>c\<in>set (sent s). ID c \<notin> P)"
    and p: "processCall s c = Inr s'"
  from p show "\<not> isFirstRun s' \<and> P \<subseteq> dom (processedCalls s') \<and> (\<forall>c\<in>set (sent s'). ID c \<notin> P)"
  proof (cases rule: processCall_InrE)
    case priming
    with i show ?thesis by simp
  next
    case (seen v)
    with i show ?thesis by simp
  next
    case (new old q')
    from new(2) i have "ID c \<notin> P" by auto
    with new(4) i show ?thesis by auto
  qed
qed simp_all

text \<open>The queue of the process never holds more than its capacity.\<close>

lemma queue_bounded:
  assumes "run U M st evs = Inr st'"
    and "length (buf (queue st)) \<le> cap (queue st) \<and> cap (queue st) = n"
  shows "length (buf (queue st')) \<le> cap (queue st') \<and> cap (queue st') = n"
proof (rule run_invariant[of U M st evs st'
      "\<lambda>s. length (buf (queue s)) \<le> cap (queue s) \<and> cap (queue s) = n", OF assms])
  fix s c s'
  assume i: "length (buf (queue s)) \<le> cap (queue s) \<and> cap (queue s) = n"
    and p: "processCall s c = Inr s'"
  from p show "length (buf (queue s')) \<le> cap (queue s') \<and> cap (queue s') = n"
  proof (cases rule: processCall_InrE)
    case priming
    with i show ?thesis by simp
  next
    case (seen v)
    with i show ?thesis by simp
  next
    case (new old q')
    from tryEnqueue_bounded[OF new(3)] i new(4) show ?thesis by simp
  qed
next
  fix s c q'
  assume "length (buf (queue s)) \<le> cap (queue s) \<and> cap (queue s) = n"
    and "dequeue (queue s) = Some (c, q')"
  then show "length (buf (queue (s\<lparr>queue := q', received := received s @ [c]\<rparr>)))
        \<le> cap (queue (s\<lparr>queue := q', received := received s @ [c]\<rparr>))
      \<and> cap (queue (s\<lparr>queue := q', received := received s @ [c]\<rparr>)) = n"
    by (auto dest!: dequeue_SomeD)
qed simp_all

section \<open>The fetcher: priming and deduplication\<close>

lemmas eval_defs =
  step_def fetchCalls_iter_def fetchCalls_ready_def playAudio_iter_def playAudio_ready_def
  processCall_def Store_def LoadOrStore_def tryEnqueue_def chan_send_def chan_recv_def dequeue_def
  make_chan_def MaxQueueSize_def init_state_def

lemma fetchJSON_listing:
  "fetchJSON sample_Unquote (listing ''XY'') = Ok ''XY''"
  "fetchJSON sample_Unquote (listing ''XYZ'') = Ok ''XYZ''"
  "fetchJSON sample_Unquote (listing ''ZW'') = Ok ''ZW''"
  "fetchJSON sample_Unquote (listing ''!'') = Ok ''!''"
  by (simp_all add: fetchJSON_def listing_def Index_def slice_def sample_Unquote_def)

lemma sample_Unmarshal_listing:
  "sample_Unmarshal ''XY'' = Some [sample_call ''X'', sample_call ''Y'']"
  "sample_Unmarshal ''XYZ'' = Some [sample_call ''X'', sample_call ''Y'', sample_call ''Z'']"
  "sample_Unmarshal ''ZW'' = Some [sample_call ''Z'', sample_call ''W'']"
  "sample_Unmarshal ''!'' = None"
  by (simp_all add: sample_Unmarshal_def)

lemma sample_priming:
  "step sample_Unquote sample_Unmarshal init_state (Fetcher True CaseTimer (listing ''XY'')) =
     Inr primed_state"
  by (simp add: eval_defs fetchJSON_listing sample_Unmarshal_listing primed_state_def sample_call_def)

lemma sample_steady:
  "step sample_Unquote sample_Unmarshal primed_state (Fetcher True CaseTimer (listing ''XYZ'')) =
     Inr steady_state"
  by (simp add: eval_defs fetchJSON_listing sample_Unmarshal_listing primed_state_def
      steady_state_def sample_call_def)

lemma scenario_XYZ:
  assumes "fetchJSON U r1 = Ok b1" and "M b1 = Some [X, Y]"
    and "fetchJSON U r2 = Ok b2" and "M b2 = Some [X, Y, Z]"
    and "ID Z \<noteq> ID X" and "ID Z \<noteq> ID Y"
  shows "\<exists>st. run U M init_state [Fetcher True CaseTimer r1, Fetcher True CaseTimer r2] = Inr st
           \<and> sent st = [Z] \<and> buf (queue st) = [Z]"
  using assms by (simp add: eval_defs)


lemma init_state_fields:
  "isFirstRun init_state" "sent init_state = []" "processedCalls init_state = Map.empty"
  "fetcher_live init_state" "player_live init_state" "\<not> done_closed init_state"
  "buf (queue init_state) = []" "cap (queue init_state) = MaxQueueSize"
  by (simp_all add: init_state_def make_chan_def)

text \<open>
  Claim C1. Take the process up to a moment when the fetcher is still priming, let the
  priming cycle retrieve the listing L0, and let any steps follow. The priming cycle
  sends nothing on the queue, leaves the queue as it was and marks every identity of L0
  in the ledger; and no call sent on the queue at any later moment has an identity of L0.
  In particular, when the priming cycle lists X, Y and the next cycle lists X, Y, Z
  (Z with a new identity), exactly Z is sent, and the queue holds Z alone.
\<close>

theorem priming_calls_never_enqueued:
  assumes "run U M init_state pre = Inr st0" and "isFirstRun st0"
    and "fetchJSON U r = Ok body" and "M body = Some L0"
    and "step U M st0 (Fetcher fired CaseTimer r) = Inr st1"
    and "run U M st1 evs = Inr st2"
  shows "(sent st1 = [] \<and> queue st1 = queue st0
          \<and> (\<forall>c\<in>set L0. processedCalls st1 (ID c) = Some True)
          \<and> (\<forall>c\<in>set (sent st2). ID c \<notin> ID ` set L0))
       \<and> (fetchJSON U r1 = Ok b1 \<and> M b1 = Some [X, Y] \<and> fetchJSON U r2 = Ok b2
            \<and> M b2 = Some [X, Y, Z] \<and> ID Z \<noteq> ID X \<and> ID Z \<noteq> ID Y \<longrightarrow>
           (\<exists>st. run U M init_state [Fetcher True CaseTimer r1, Fetcher True CaseTimer r2] = Inr st
                \<and> sent st = [Z] \<and> buf (queue st) = [Z]))"
proof -
  from priming_sends_nothing[OF assms(1)] assms(2) have s0: "sent st0 = []"
    by (simp add: init_state_fields)
  from step_Fetcher_TimerD[OF assms(5)] assms(3,4) obtain s1 where
    live: "fetcher_live st0" and r: "rangeCalls st0 L0 = Inr s1" and e: "st1 = s1\<lparr>isFirstRun := False\<rparr>"
    by auto
  from r have s1: "s1 = st0\<lparr>processedCalls := foldl (\<lambda>m c. Store m (ID c) True) (processedCalls st0) L0\<rparr>"
    unfolding rangeCalls_priming[OF assms(2)] by simp
  from s1 e s0 have a: "sent st1 = []" and b: "queue st1 = queue st0" and nf: "\<not> isFirstRun st1"
    by simp_all
  from s1 e have led: "processedCalls st1 k = (if k \<in> ID ` set L0 then Some True else processedCalls st0 k)" for k
    by (simp add: foldl_Store)
  then have c: "\<forall>c\<in>set L0. processedCalls st1 (ID c) = Some True" by simp
  from led have "ID ` set L0 \<subseteq> dom (processedCalls st1)" by (auto simp: dom_def)
  with marked_never_sent[OF assms(6), of "ID ` set L0"] nf a
  have d: "\<forall>c\<in>set (sent st2). ID c \<notin> ID ` set L0" by simp
  from a b c d scenario_XYZ[of U r1 b1 M X Y r2 b2 Z] show ?thesis by blast
qed

theorem priming_calls_never_enqueued_witness:
  "run sample_Unquote sample_Unmarshal init_state [] = Inr init_state
   \<and> isFirstRun init_state
   \<and> fetchJSON sample_Unquote (listing ''XY'') = Ok ''XY''
   \<and> sample_Unmarshal ''XY'' = Some [sample_call ''X'', sample_call ''Y'']
   \<and> step sample_Unquote sample_Unmarshal init_state (Fetcher True CaseTimer (listing ''XY'')) =
       Inr primed_state
   \<and> run sample_Unquote sample_Unmarshal primed_state [Fetcher True CaseTimer (listing ''XYZ'')] =
       Inr steady_state
   \<and> sent primed_state = []
   \<and> processedCalls primed_state ''X'' = Some True
   \<and> sent steady_state = [sample_call ''Z'']
   \<and> ID (sample_call ''Z'') \<notin> ID ` set [sample_call ''X'', sample_call ''Y'']
   \<and> (\<exists>st. run sample_Unquote sample_Unmarshal init_state
              [Fetcher True CaseTimer (listing ''XY''), Fetcher True CaseTimer (listing ''XYZ'')] = Inr st
          \<and> sent st = [sample_call ''Z''] \<and> buf (queue st) = [sample_call ''Z''])"
proof -
  have h1: "run sample_Unquote sample_Unmarshal init_state [] = Inr init_state" by simp
  have h6: "run sample_Unquote sample_Unmarshal primed_state [Fetcher True CaseTimer (listing ''XYZ'')] =
       Inr steady_state"
    by (simp add: sample_steady)
  have ids: "ID (sample_call ''Z'') \<noteq> ID (sample_call ''X'')"
    "ID (sample_call ''Z'') \<noteq> ID (sample_call ''Y'')"
    by (simp_all add: sample_call_def)
  note t = priming_calls_never_enqueued[OF h1 init_state_fields(1) fetchJSON_listing(1)
      sample_Unmarshal_listing(1) sample_priming h6,
      of "listing ''XY''" "''XY''" "sample_call ''X''" "sample_call ''Y''"
         "listing ''XYZ''" "''XYZ''" "sample_call ''Z''"]
  from t have "sent primed_state = []"
    and "\<forall>c\<in>set [sample_call ''X'', sample_call ''Y'']. processedCalls primed_state (ID c) = Some True"
    and "\<forall>c\<in>set (sent steady_state). ID c \<notin> ID ` set [sample_call ''X'', sample_call ''Y'']"
    by blast+
  moreover have "sent steady_state = [sample_call ''Z'']"
    by (simp add: steady_state_def)
  moreover from t fetchJSON_listing(1,2) sample_Unmarshal_listing(1,2) ids
  have "\<exists>st. run sample_Unquote sample_Unmarshal init_state
              [Fetcher True CaseTimer (listing ''XY''), Fetcher True CaseTimer (listing ''XYZ'')] = Inr st
          \<and> sent st = [sample_call ''Z''] \<and> buf (queue st) = [sample_call ''Z'']"
    by blast
  ultimately show ?thesis
    using h1 h6 init_state_fields(1) fetchJSON_listing(1) sample_Unmarshal_listing(1) sample_priming
    by (simp add: sample_call_def)
qed

subsection \<open>Deduplication\<close>

lemma newly_marked_fresh:
  "distinct (newly_marked m ops) \<and> set (newly_marked m ops) \<inter> dom m = {}"
proof (induction ops arbitrary: m)
  case Nil
  then show ?case by simp
next
  case (Cons op ops)
  show ?case
  proof (cases op)
    case (OpStore k)
    from Cons.IH[of "Store m k True"] have
      "distinct (newly_marked (Store m k True) ops)"
      "set (newly_marked (Store m k True) ops) \<inter> dom (Store m k True) = {}"
      by simp_all
    moreover have "dom m \<subseteq> dom (Store m k True)" by (auto simp: Store_def)
    ultimately have "distinct (newly_marked (Store m k True) ops)"
      and "set (newly_marked (Store m k True) ops) \<inter> dom m = {}"
      by blast+
    with OpStore show ?thesis by simp
  next
    case (OpLoadOrStore k)
    show ?thesis
    proof (cases "m k")
      case None
      then have eq: "newly_marked m (op # ops) = k # newly_marked (m(k \<mapsto> True)) ops"
        using OpLoadOrStore by (simp add: LoadOrStore_def)
      from Cons.IH[of "m(k \<mapsto> True)"] have
        d: "distinct (newly_marked (m(k \<mapsto> True)) ops)"
        and j: "set (newly_marked (m(k \<mapsto> True)) ops) \<inter> insert k (dom m) = {}"
        by (simp_all del: fun_upd_apply)
      from j have "k \<notin> set (newly_marked (m(k \<mapsto> True)) ops)"
        and "set (newly_marked (m(k \<mapsto> True)) ops) \<inter> dom m = {}"
        by blast+
      moreover from None have "k \<notin> dom m" by (simp add: dom_def)
      ultimately show ?thesis unfolding eq using d by simp
    next
      case (Some a)
      then have "newly_marked m (op # ops) = newly_marked m ops"
        using OpLoadOrStore by (simp add: LoadOrStore_def)
      with Cons.IH[of m] show ?thesis by simp
    qed
  qed
qed

lemma distinct_map_filter_le_1:
  "distinct (map f xs) \<Longrightarrow> length (filter (\<lambda>x. f x = i) xs) \<le> 1"
proof (induction xs)
  case Nil
  then show ?case by simp
next
  case (Cons x xs)
  show ?case
  proof (cases "f x = i")
    case True
    from Cons.prems have "f x \<notin> f ` set xs" by simp
    then have "\<forall>y\<in>set xs. f y \<noteq> f x" by (metis image_eqI)
    with True have "filter (\<lambda>x. f x = i) xs = []"
      by (simp add: filter_empty_conv)
    with True show ?thesis by simp
  next
    case False
    with Cons show ?thesis by simp
  qed
qed

text \<open>
  Claim C3. In any sequence of ledger operations, \<open>LoadOrStore\<close> reports "newly
  marked" at most once for each identity, and never for an identity already in the
  ledger. Consequently, whatever the listings of the cycles of a run are, the calls sent
  on the queue have distinct identities: each identity is enqueued at most once.
\<close>

theorem dedup_at_most_once:
  "distinct (newly_marked m ops) \<and> set (newly_marked m ops) \<inter> dom m = {}
   \<and> (run U M init_state evs = Inr st \<longrightarrow>
        distinct (map ID (sent st)) \<and> length (filter (\<lambda>c. ID c = i) (sent st)) \<le> 1)"
proof -
  have "distinct (map ID (sent st)) \<and> length (filter (\<lambda>c. ID c = i) (sent st)) \<le> 1"
    if r: "run U M init_state evs = Inr st"
  proof -
    from sent_distinct[OF r] have "distinct (map ID (sent st))"
      by (simp add: init_state_fields)
    with distinct_map_filter_le_1[of ID "sent st" i] show ?thesis by simp
  qed
  with newly_marked_fresh[of m ops] show ?thesis by blast
qed

theorem dedup_at_most_once_witness:
  "newly_marked Map.empty [OpStore ''X'', OpLoadOrStore ''Z'', OpLoadOrStore ''Z'', OpLoadOrStore ''X''] = [''Z'']
   \<and> run sample_Unquote sample_Unmarshal init_state
        [Fetcher True CaseTimer (listing ''XY''), Fetcher True CaseTimer (listing ''XYZ''),
         Fetcher True CaseTimer (listing ''ZW'')] =
       Inr (steady_state\<lparr>processedCalls := [''X'' \<mapsto> True, ''Y'' \<mapsto> True, ''Z'' \<mapsto> True, ''W'' \<mapsto> True],
                         queue := \<lparr>buf = [sample_call ''Z'', sample_call ''W''], cap = MaxQueueSize\<rparr>,
                         sent := [sample_call ''Z'', sample_call ''W'']\<rparr>)
   \<and> distinct (map ID [sample_call ''Z'', sample_call ''W''])
   \<and> length (filter (\<lambda>c. ID c = ''Z'') [sample_call ''Z'', sample_call ''W'']) \<le> 1"
proof -
  let ?ops = "[OpStore ''X'', OpLoadOrStore ''Z'', OpLoadOrStore ''Z'', OpLoadOrStore ''X'']"
  let ?evs = "[Fetcher True CaseTimer (listing ''XY''), Fetcher True CaseTimer (listing ''XYZ''),
         Fetcher True CaseTimer (listing ''ZW'')]"
  let ?S = "steady_state\<lparr>processedCalls := [''X'' \<mapsto> True, ''Y'' \<mapsto> True, ''Z'' \<mapsto> True, ''W'' \<mapsto> True],
                         queue := \<lparr>buf = [sample_call ''Z'', sample_call ''W''], cap = MaxQueueSize\<rparr>,
                         sent := [sample_call ''Z'', sample_call ''W'']\<rparr>"
  have n: "newly_marked Map.empty ?ops = [''Z'']"
    by (simp add: Store_def LoadOrStore_def)
  have "step sample_Unquote sample_Unmarshal steady_state (Fetcher True CaseTimer (listing ''ZW'')) = Inr ?S"
    by (simp add: eval_defs fetchJSON_listing sample_Unmarshal_listing steady_state_def sample_call_def)
  then have r: "run sample_Unquote sample_Unmarshal init_state ?evs = Inr ?S"
    by (simp add: sample_priming sample_steady)
  have s: "sent ?S = [sample_call ''Z'', sample_call ''W'']" by simp
  from dedup_at_most_once[of Map.empty ?ops sample_Unquote sample_Unmarshal ?evs ?S "''Z''"] r
  have "distinct (map ID (sent ?S))" and "length (filter (\<lambda>c. ID c = ''Z'') (sent ?S)) \<le> 1"
    by blast+
  with n r show ?thesis unfolding s by blast
qed

section \<open>Failed cycles\<close>

lemma step_failed_fetch:
  assumes "fetcher_live st"
    and "fetchJSON U r = Error e \<or> (\<exists>body. fetchJSON U r = Ok body \<and> M body = None)"
  shows "step U M st (Fetcher True CaseTimer r) = Inr st"
  using assms by (auto simp: step_def fetchCalls_iter_def fetchCalls_ready_def)

lemma step_before_timer:
  "step U M st (Fetcher False CaseTimer r) = Inl NotEnabled"
  by (simp add: step_def fetchCalls_iter_def fetchCalls_ready_def)

lemma fetchJSON_errors:
  "fetchJSON U MarshalFailed = Error ErrMarshal"
  "fetchJSON U NewRequestFailed = Error ErrNewRequest"
  "fetchJSON U DoFailed = Error ErrDo"
  "code \<noteq> 200 \<Longrightarrow> fetchJSON U (Response code rd) = Error (ErrStatus code)"
  "fetchJSON U (Response 200 None) = Error ErrReadBody"
  "Index h ''<pre>'' = - 1 \<or> Index h ''</pre>'' = - 1 \<Longrightarrow>
     fetchJSON U (Response 200 (Some h)) = Error ErrNoPreTags"
  "Index h ''<pre>'' \<noteq> - 1 \<Longrightarrow> Index h ''</pre>'' \<noteq> - 1 \<Longrightarrow>
   slice h (Index h ''<pre>'' + 5) (Index h ''</pre>'') = Some j \<Longrightarrow>
   U ([CHR 0x22] @ j @ [CHR 0x22]) = None \<Longrightarrow>
     fetchJSON U (Response 200 (Some h)) = Error ErrUnquote"
  by (simp_all add: fetchJSON_def Let_def)

text \<open>
  Claim C6. When the fetch of a cycle fails (\<open>fetchJSON\<close> returns an error, or the
  JSON of the listing does not parse), the iteration leaves the whole state as it was:
  nothing is sent on the queue, the ledger is unchanged, and the loop is still running.
  The next cycle starts from the \<open>select\<close> again, and cannot start before the
  interval timer has fired. The errors of \<open>fetchJSON\<close>: the request fails, the
  status is not 200, the body cannot be read, a \<open><pre>\<close> or \<open></pre>\<close> marker is
  missing, the text between the markers cannot be unquoted.
\<close>

theorem failed_cycle_abandoned:
  "(fetcher_live st \<and> (fetchJSON U r = Error e \<or> (\<exists>body. fetchJSON U r = Ok body \<and> M body = None)) \<longrightarrow>
      step U M st (Fetcher True CaseTimer r) = Inr st
      \<and> run U M st (Fetcher True CaseTimer r # evs) = run U M st evs
      \<and> step U M st (Fetcher False CaseTimer r') = Inl NotEnabled)
   \<and> fetchJSON U DoFailed = Error ErrDo
   \<and> (code \<noteq> 200 \<longrightarrow> fetchJSON U (Response code rd) = Error (ErrStatus code))
   \<and> fetchJSON U (Response 200 None) = Error ErrReadBody
   \<and> (Index h ''<pre>'' = - 1 \<or> Index h ''</pre>'' = - 1 \<longrightarrow>
        fetchJSON U (Response 200 (Some h)) = Error ErrNoPreTags)
   \<and> (Index h' ''<pre>'' \<noteq> - 1 \<and> Index h' ''</pre>'' \<noteq> - 1
        \<and> slice h' (Index h' ''<pre>'' + 5) (Index h' ''</pre>'') = Some j
        \<and> U ([CHR 0x22] @ j @ [CHR 0x22]) = None \<longrightarrow>
        fetchJSON U (Response 200 (Some h')) = Error ErrUnquote)"
proof -
  have "step U M st (Fetcher True CaseTimer r) = Inr st
      \<and> run U M st (Fetcher True CaseTimer r # evs) = run U M st evs
      \<and> step U M st (Fetcher False CaseTimer r') = Inl NotEnabled"
    if "fetcher_live st"
      and "fetchJSON U r = Error e \<or> (\<exists>body. fetchJSON U r = Ok body \<and> M body = None)"
    using step_failed_fetch[OF that] step_before_timer[of U M st r'] by simp
  then show ?thesis
    using fetchJSON_errors(3)[of U] fetchJSON_errors(4)[of code U rd] fetchJSON_errors(5)[of U]
      fetchJSON_errors(6)[of h U] fetchJSON_errors(7)[of h' j U]
    by blast
qed

theorem failed_cycle_abandoned_witness:
  "fetcher_live steady_state
   \<and> fetchJSON sample_Unquote (listing ''!'') = Ok ''!'' \<and> sample_Unmarshal ''!'' = None
   \<and> step sample_Unquote sample_Unmarshal steady_state (Fetcher True CaseTimer (listing ''!'')) =
        Inr steady_state
   \<and> (503::nat) \<noteq> 200
   \<and> step sample_Unquote sample_Unmarshal steady_state (Fetcher True CaseTimer (Response 503 None)) =
        Inr steady_state
   \<and> Index ''<html>Just a moment...</html>'' ''<pre>'' = - 1
   \<and> fetchJSON sample_Unquote (Response 200 (Some ''<html>Just a moment...</html>'')) = Error ErrNoPreTags
   \<and> Index (''<pre>a'' @ [CHR 0x5C] @ ''b</pre>'') ''<pre>'' = 0 \<and> Index (''<pre>a'' @ [CHR 0x5C] @ ''b</pre>'') ''</pre>'' = 8
   \<and> slice (''<pre>a'' @ [CHR 0x5C] @ ''b</pre>'') 5 8 = Some (''a'' @ [CHR 0x5C] @ ''b'')
   \<and> sample_Unquote ([CHR 0x22] @ (''a'' @ [CHR 0x5C] @ ''b'') @ [CHR 0x22]) = None
   \<and> fetchJSON sample_Unquote (Response 200 (Some (''<pre>a'' @ [CHR 0x5C] @ ''b</pre>''))) = Error ErrUnquote"
proof -
  have l: "fetcher_live steady_state"
    by (simp add: steady_state_def init_state_def)
  have i1: "Index ''<html>Just a moment...</html>'' ''<pre>'' = - 1"
    by (simp add: Index_def)
  have i2: "Index (''<pre>a'' @ [CHR 0x5C] @ ''b</pre>'') ''<pre>'' = 0" "Index (''<pre>a'' @ [CHR 0x5C] @ ''b</pre>'') ''</pre>'' = 8"
    by (simp_all add: Index_def)
  have sl: "slice (''<pre>a'' @ [CHR 0x5C] @ ''b</pre>'') 5 8 = Some (''a'' @ [CHR 0x5C] @ ''b'')"
    by (simp add: slice_def)
  have u: "sample_Unquote ([CHR 0x22] @ (''a'' @ [CHR 0x5C] @ ''b'') @ [CHR 0x22]) = None"
    by (simp add: sample_Unquote_def)
  from failed_cycle_abandoned[of steady_state sample_Unquote "listing ''!''" ErrDo sample_Unmarshal
      "[]" "listing ''!''" 503 None "''<html>Just a moment...</html>''" "''<pre>a'' @ [CHR 0x5C] @ ''b</pre>''" "''a'' @ [CHR 0x5C] @ ''b''"]
    failed_cycle_abandoned[of steady_state sample_Unquote "Response 503 None" "ErrStatus 503"
      sample_Unmarshal "[]" "listing ''!''" 503 None "''<html>Just a moment...</html>''" "''<pre>a'' @ [CHR 0x5C] @ ''b</pre>''" "''a'' @ [CHR 0x5C] @ ''b''"]
    l i1 i2 sl u fetchJSON_listing(4) sample_Unmarshal_listing(4)
  show ?thesis by simp
qed

section \<open>Leaving the priming mode\<close>

lemma step_keeps_priming:
  assumes "step U M st ev = Inr st'" and "isFirstRun st"
    and "\<forall>fired r body. ev = Fetcher fired CaseTimer r \<longrightarrow> fetchJSON U r = Ok body \<longrightarrow> M body = None"
  shows "isFirstRun st' \<and> processedCalls st' = processedCalls st \<and> sent st' = sent st"
proof (cases ev)
  case Interrupt
  with assms(1,2) show ?thesis
    by (auto simp: step_def split: if_splits)
next
  case (Fetcher fired pick r)
  show ?thesis
  proof (cases "pick = CaseTimer")
    case True
    with Fetcher assms(1) have s: "step U M st (Fetcher fired CaseTimer r) = Inr st'" by simp
    from Fetcher True assms(3) have "\<forall>body. fetchJSON U r = Ok body \<longrightarrow> M body = None" by blast
    with step_Fetcher_TimerD[OF s] have "st' = st" by auto
    with assms(2) show ?thesis by simp
  next
    case False
    with Fetcher assms(1,2) show ?thesis
      by (cases pick) (auto simp: step_def fetchCalls_iter_def fetchCalls_ready_def split: if_splits)
  qed
next
  case (Player pick beep play)
  with assms(1,2) show ?thesis
    by (auto simp: step_def playAudio_iter_def Let_def split: if_splits option.splits)
qed

lemma run_keeps_priming:
  assumes "run U M st evs = Inr st'" and "isFirstRun st"
    and "\<forall>fired r body. Fetcher fired CaseTimer r \<in> set evs \<longrightarrow> fetchJSON U r = Ok body \<longrightarrow> M body = None"
  shows "isFirstRun st' \<and> processedCalls st' = processedCalls st \<and> sent st' = sent st"
  using assms
proof (induction evs arbitrary: st)
  case Nil
  then show ?case by simp
next
  case (Cons ev evs)
  from Cons.prems(1) obtain s1 where s: "step U M st ev = Inr s1" and r: "run U M s1 evs = Inr st'"
    by (auto split: sum.splits)
  from Cons.prems(3) have
    h1: "\<forall>fired r body. ev = Fetcher fired CaseTimer r \<longrightarrow> fetchJSON U r = Ok body \<longrightarrow> M body = None"
    and h2: "\<forall>fired r body. Fetcher fired CaseTimer r \<in> set evs \<longrightarrow> fetchJSON U r = Ok body \<longrightarrow> M body = None"
    by auto
  from step_keeps_priming[OF s Cons.prems(2) h1] have
    k: "isFirstRun s1" "processedCalls s1 = processedCalls st" "sent s1 = sent st"
    by simp_all
  from Cons.IH[OF r k(1) h2] k show ?case by simp
qed

text \<open>
  Claim C10. As long as no cycle of the run has retrieved and parsed a listing, the
  fetcher is still priming, nothing has been sent and the ledger is empty. The first
  cycle that retrieves a listing is then the priming cycle: it marks the identities of
  its calls in the ledger, sends nothing, leaves the queue as it was and ends the
  priming mode.
\<close>

theorem priming_ends_with_first_successful_fetch:
  assumes "run U M init_state evs = Inr st"
    and "\<forall>fired r body. Fetcher fired CaseTimer r \<in> set evs \<longrightarrow> fetchJSON U r = Ok body \<longrightarrow> M body = None"
  shows "isFirstRun st \<and> sent st = [] \<and> processedCalls st = Map.empty
       \<and> (fetcher_live st \<and> fetchJSON U r = Ok body \<and> M body = Some calls \<longrightarrow>
            (\<exists>st'. step U M st (Fetcher True CaseTimer r) = Inr st'
                \<and> \<not> isFirstRun st' \<and> sent st' = [] \<and> queue st' = queue st
                \<and> dom (processedCalls st') = ID ` set calls))"
proof -
  from run_keeps_priming[OF assms(1) init_state_fields(1) assms(2)]
  have p: "isFirstRun st" and l: "processedCalls st = Map.empty" and s: "sent st = []"
    by (simp_all add: init_state_fields)
  have "\<exists>st'. step U M st (Fetcher True CaseTimer r) = Inr st'
                \<and> \<not> isFirstRun st' \<and> sent st' = [] \<and> queue st' = queue st
                \<and> dom (processedCalls st') = ID ` set calls"
    if live: "fetcher_live st" and f: "fetchJSON U r = Ok body" and m: "M body = Some calls"
  proof -
    let ?st' = "st\<lparr>processedCalls := foldl (\<lambda>m c. Store m (ID c) True) (processedCalls st) calls,
                   isFirstRun := False\<rparr>"
    have "dom (processedCalls ?st') = ID ` set calls"
      using l by (auto simp: dom_def foldl_Store)
    with fetchCalls_iter_priming[of st U r body M calls] live p f m s show ?thesis by simp
  qed
  with p l s show ?thesis by blast
qed

theorem priming_ends_with_first_successful_fetch_witness:
  "run sample_Unquote sample_Unmarshal init_state
      [Fetcher True CaseTimer (Response 503 None), Fetcher True CaseTimer (listing ''!'')] = Inr init_state
   \<and> fetchJSON sample_Unquote (Response 503 None) = Error (ErrStatus 503)
   \<and> fetchJSON sample_Unquote (listing ''!'') = Ok ''!'' \<and> sample_Unmarshal ''!'' = None
   \<and> isFirstRun init_state \<and> fetcher_live init_state
   \<and> fetchJSON sample_Unquote (listing ''XY'') = Ok ''XY''
   \<and> sample_Unmarshal ''XY'' = Some [sample_call ''X'', sample_call ''Y'']
   \<and> step sample_Unquote sample_Unmarshal init_state (Fetcher True CaseTimer (listing ''XY'')) =
        Inr primed_state
   \<and> \<not> isFirstRun primed_state \<and> sent primed_state = []
   \<and> dom (processedCalls primed_state) = ID ` set [sample_call ''X'', sample_call ''Y'']"
proof -
  let ?evs = "[Fetcher True CaseTimer (Response 503 None), Fetcher True CaseTimer (listing ''!'')]"
  have e: "fetchJSON sample_Unquote (Response 503 None) = Error (ErrStatus 503)"
    by (simp add: fetchJSON_def)
  have r: "run sample_Unquote sample_Unmarshal init_state ?evs = Inr init_state"
    by (simp add: step_def fetchCalls_iter_def fetchCalls_ready_def init_state_fields e
        fetchJSON_listing sample_Unmarshal_listing)
  have h: "\<forall>fired r body. Fetcher fired CaseTimer r \<in> set ?evs \<longrightarrow>
      fetchJSON sample_Unquote r = Ok body \<longrightarrow> sample_Unmarshal body = None"
    using e fetchJSON_listing(4) sample_Unmarshal_listing(4) by auto
  from priming_ends_with_first_successful_fetch[OF r h, of "listing ''XY''" "''XY''"
      "[sample_call ''X'', sample_call ''Y'']"]
    init_state_fields(4) fetchJSON_listing(1) sample_Unmarshal_listing(1)
  obtain st' where
    "step sample_Unquote sample_Unmarshal init_state (Fetcher True CaseTimer (listing ''XY'')) = Inr st'"
    "\<not> isFirstRun st'" "sent st' = []"
    "dom (processedCalls st') = ID ` set [sample_call ''X'', sample_call ''Y'']"
    by blast
  then have "\<not> isFirstRun primed_state" "sent primed_state = []"
    "dom (processedCalls primed_state) = ID ` set [sample_call ''X'', sample_call ''Y'']"
    unfolding sample_priming by simp_all
  with e r fetchJSON_listing(1,4) sample_Unmarshal_listing(1,4) init_state_fields(1,4) sample_priming
  show ?thesis by simp
qed

section \<open>Shutdown\<close>

lemma timely_step:
  "timely st (Fetcher fired pick r) \<Longrightarrow>
     step U M st (Fetcher fired pick r) = fetchCalls_step U M st fired r"
  by (simp add: timely_def step_def fetchCalls_step_def)










section \<open>Fatal and transient errors\<close>

lemma fetchSystems_failures:
  "fetchJSON U r = Error e \<Longrightarrow> fetchSystems U US r scanned = Failed (FetchFailed e)"
  "fetchJSON U r = Ok body \<Longrightarrow> US body = None \<Longrightarrow> fetchSystems U US r scanned = Failed ParseFailed"
  "fetchJSON U r = Ok body \<Longrightarrow> US body = Some False \<Longrightarrow> fetchSystems U US r scanned = Failed ApiFailure"
  "fetchJSON U r = Ok body \<Longrightarrow> US body = Some True \<Longrightarrow> fetchSystems U US r None = Failed InputFailed"
  by (simp_all add: fetchSystems_def)

text \<open>
  A fatal startup error (the proxy is not running; no system was given and listing or
  choosing one fails) logs, exits with status 1 and starts neither goroutine.
\<close>

lemma fatal_startup_starts_nothing:
  assumes "\<not> flareSolverrRunning \<or> (shortName = [] \<and> systems = Failed e)"
  shows "main_startup flareSolverrRunning shortName systems = [LogFatal, Exit 1]"
  using assms by (auto simp: main_startup_def)

text \<open>An error of \<^verbatim>\<open>playRogerBeep\<close> or \<^verbatim>\<open>playFile\<close> leaves the player running.\<close>

lemma playback_error_continues:
  assumes "playAudio_iter st CaseQueue beep play = Inr st'"
  shows "player_live st' \<and> fetcher_live st' = fetcher_live st"
  using assms
  by (auto simp: playAudio_iter_def Let_def split: if_splits option.splits)

text \<open>
  Claim C8 fails on the code. A response with status 200 whose body has the closing
  marker before the opening one passes the test for missing markers; the slice
  \<^verbatim>\<open>htmlContent[startIndex+len("<pre>") : endIndex]\<close> then has its bounds out of
  order and panics, which ends the process from inside the loop of the fetcher.
\<close>

theorem misordered_markers_crash_process:
  "Index ''</pre><pre>'' ''<pre>'' = 6 \<and> Index ''</pre><pre>'' ''</pre>'' = 0
   \<and> fetchJSON U (Response 200 (Some ''</pre><pre>'')) = Panic
   \<and> run U M init_state [Fetcher True CaseTimer (Response 200 (Some ''</pre><pre>''))] = Inl Panicked"
  by (simp add: step_def fetchCalls_iter_def fetchCalls_ready_def init_state_def fetchJSON_def
      Index_def slice_def)

section \<open>Temporary files of the downloading player\<close>

lemmas file_defs =
  playAudio_iter_part_001_def downloadFile_def convertToMP3_def Remove_def
  AudioFolderPath_def Base_def Ext_def TrimSuffix_def sample_call_def
  playAudio_iter_part_000_def downloadFile_part_000_def last_element_def

text \<open>When every stage succeeds, both files of the call are removed.\<close>

lemma played_call_leaves_no_file:
  "playAudio_iter_part_001 {} (sample_call ''7'') DownloadOk ExecOk ExecOk ExecOk = {}"
  "playAudio_iter_part_000 {} (sample_call ''7'') DownloadOk ExecOk ExecOk = {}"
  by (auto simp: file_defs Let_def)

text \<open>
  Claim C9 fails on the code. When a stage after the download fails, the iteration
  leaves through \<^verbatim>\<open>continue\<close> before the two calls of \<^verbatim>\<open>os.Remove\<close>: after a
  failed conversion the downloaded file is still in the folder, and after a failed
  playback both the downloaded and the converted file are. The first player does the
  same, and there the file is left even when the download request itself fails.
\<close>

theorem failed_stage_leaves_files:
  "playAudio_iter_part_001 {} (sample_call ''7'') DownloadOk ExecErr probe play =
     {''OpenMHzPi-downloads/7.m4a''}
   \<and> playAudio_iter_part_001 {} (sample_call ''7'') DownloadOk ExecOk ExecOk ExecErr =
     {''OpenMHzPi-downloads/7.mp3'', ''OpenMHzPi-downloads/7.m4a''}
   \<and> playAudio_iter_part_000 {} (sample_call ''7'') DownloadOk ExecErr play =
     {''OpenMHzPi-downloads/7.m4a''}
   \<and> playAudio_iter_part_000 {} (sample_call ''7'') GetFailed conv play =
     {''OpenMHzPi-downloads/7.m4a''}"
  by (simp add: file_defs)

section \<open>The bound on the queue\<close>

text \<open>The queue of the running process never holds more than \<open>MaxQueueSize\<close> calls.\<close>

lemma process_queue_bounded:
  assumes "run U M init_state evs = Inr st"
  shows "length (buf (queue st)) \<le> MaxQueueSize \<and> cap (queue st) = MaxQueueSize"
  using queue_bounded[OF assms, of MaxQueueSize] by (simp add: init_state_fields)

text \<open>
  What the fetcher does with a call to the ledger, to the calls sent and to its mode
  does not depend on the contents of the queue, so a receive of the player inside a
  cycle changes none of them.
\<close>

lemma processCall_queue_independent:
  assumes "processCall st c = Inr st'" and "0 < cap q" and "length (buf q) \<le> cap q"
  shows "\<exists>st''. processCall (st\<lparr>queue := q\<rparr>) c = Inr st''
           \<and> processedCalls st'' = processedCalls st' \<and> sent st'' = sent st'
           \<and> isFirstRun st'' = isFirstRun st'"
  using assms(1)
proof (cases rule: processCall_InrE)
  case priming
  then show ?thesis by (simp add: processCall_priming)
next
  case (seen v)
  then show ?thesis by (simp add: processCall_seen)
next
  case (new old q')
  show ?thesis
  proof (cases "length (buf q) < cap q")
    case True
    with new tryEnqueue_room[OF True, of c] show ?thesis
      by (simp add: processCall_new)
  next
    case False
    with assms(3) have "length (buf q) = cap q" by simp
    from tryEnqueue_full[OF this assms(2), of c] new show ?thesis
      by (simp add: processCall_new)
  qed
qed

text \<open>
  Claim C5. The queue never holds more calls than its capacity: after any sequence of
  enqueue and dequeue operations on a queue created empty with capacity n; after any
  sequence of single channel operations of the two goroutines, also inside an enqueue;
  and in every state of the running process, whose queue has capacity
  \<open>MaxQueueSize\<close>. (Every prefix of a sequence is a sequence, so the bound holds at
  each moment.)
\<close>

theorem queue_length_bounded:
  "(run_ops (make_chan n) ops = Some (outs, q) \<longrightarrow> length (buf q) \<le> n \<and> cap q = n)
   \<and> (chan_run (make_chan n, Idle) as = Some (q', pc) \<longrightarrow> length (buf q') \<le> n \<and> cap q' = n)
   \<and> (run U M init_state evs = Inr st \<longrightarrow>
        length (buf (queue st)) \<le> MaxQueueSize \<and> cap (queue st) = MaxQueueSize)"
proof -
  have "length (buf q) \<le> n \<and> cap q = n" if "run_ops (make_chan n) ops = Some (outs, q)"
    using run_ops_bounded[OF that] by (simp add: make_chan_def)
  moreover have "length (buf q') \<le> n \<and> cap q' = n"
    if "chan_run (make_chan n, Idle) as = Some (q', pc)"
    using chan_run_bounded[OF that] by (simp add: make_chan_def)
  ultimately show ?thesis
    using process_queue_bounded[of U M evs st] by blast
qed

theorem queue_length_bounded_witness:
  "run_ops (make_chan 2)
     [Enqueue (sample_call ''A''), Enqueue (sample_call ''B''), Enqueue (sample_call ''C''), Dequeue] =
     Some ([Evicted (sample_call ''A''), Delivered (sample_call ''B'')],
           \<lparr>buf = [sample_call ''C''], cap = 2\<rparr>)
   \<and> chan_run (make_chan 2, Idle)
       [Offer (sample_call ''A''), Offer (sample_call ''B''), Offer (sample_call ''C''),
        Receive, Advance, Advance] =
     Some (\<lparr>buf = [sample_call ''C''], cap = 2\<rparr>, Idle)
   \<and> run sample_Unquote sample_Unmarshal init_state
       [Fetcher True CaseTimer (listing ''XY''), Fetcher True CaseTimer (listing ''XYZ'')] =
     Inr steady_state
   \<and> length (buf \<lparr>buf = [sample_call ''C''], cap = 2\<rparr>) \<le> 2
   \<and> length (buf (queue steady_state)) \<le> MaxQueueSize"
proof -
  let ?ops = "[Enqueue (sample_call ''A''), Enqueue (sample_call ''B''), Enqueue (sample_call ''C''), Dequeue]"
  let ?outs = "[Evicted (sample_call ''A''), Delivered (sample_call ''B'')]"
  let ?q = "\<lparr>buf = [sample_call ''C''], cap = 2\<rparr>"
  let ?as = "[Offer (sample_call ''A''), Offer (sample_call ''B''), Offer (sample_call ''C''),
        Receive, Advance, Advance]"
  let ?evs = "[Fetcher True CaseTimer (listing ''XY''), Fetcher True CaseTimer (listing ''XYZ'')]"
  have r: "run_ops (make_chan 2) ?ops = Some (?outs, ?q)"
    by (simp add: make_chan_def tryEnqueue_def chan_send_def chan_recv_def dequeue_def)
  have c: "chan_run (make_chan 2, Idle) ?as = Some (?q, Idle)"
    by (simp add: make_chan_def chan_send_def chan_recv_def)
  have s: "run sample_Unquote sample_Unmarshal init_state ?evs = Inr steady_state"
    by (simp add: sample_priming sample_steady)
  from queue_length_bounded[of 2 ?ops ?outs ?q ?as ?q Idle sample_Unquote sample_Unmarshal
      ?evs steady_state] r c s
  have "length (buf ?q) \<le> 2" and "length (buf (queue steady_state)) \<le> MaxQueueSize"
    by blast+
  with r c s show ?thesis by blast
qed

section \<open>The order of the calls\<close>

lemma outs_snoc:
  "delivered (outs @ [Delivered c]) = delivered outs @ [c]"
  "evicted (outs @ [Delivered c]) = evicted outs"
  "delivered (outs @ [Evicted c]) = delivered outs"
  "evicted (outs @ [Evicted c]) = evicted outs @ [c]"
  by (induction outs rule: delivered.induct) simp_all

text \<open>
  The calls the fetcher sent are, in order, the calls that left the queue (discarded by
  the fetcher or received by the player) followed by the calls still in it.
\<close>

lemma process_order:
  assumes "run U M st evs = Inr st'"
    and "\<exists>outs. map removed outs @ buf (queue st) = sent st
           \<and> delivered outs = received st \<and> evicted outs = dropped st"
  shows "\<exists>outs. map removed outs @ buf (queue st') = sent st'
           \<and> delivered outs = received st' \<and> evicted outs = dropped st'"
proof (rule run_invariant[of U M st evs st'
      "\<lambda>s. \<exists>outs. map removed outs @ buf (queue s) = sent s
           \<and> delivered outs = received s \<and> evicted outs = dropped s", OF assms])
  fix s c s'
  assume i: "\<exists>outs. map removed outs @ buf (queue s) = sent s
           \<and> delivered outs = received s \<and> evicted outs = dropped s"
    and p: "processCall s c = Inr s'"
  then obtain outs where o: "map removed outs @ buf (queue s) = sent s"
    "delivered outs = received s" "evicted outs = dropped s"
    by blast
  from p show "\<exists>outs. map removed outs @ buf (queue s') = sent s'
           \<and> delivered outs = received s' \<and> evicted outs = dropped s'"
  proof (cases rule: processCall_InrE)
    case priming
    with o show ?thesis by auto
  next
    case (seen v)
    with o show ?thesis by auto
  next
    case (new old q')
    from tryEnqueue_SomeD[OF new(3)] consider
      (room) "old = None" "buf q' = buf (queue s) @ [c]"
      | (full) y ys where "old = Some y" "buf (queue s) = y # ys" "buf q' = ys @ [c]"
      by auto
    then show ?thesis
    proof cases
      case room
      with o new(4) have "map removed outs @ buf (queue s') = sent s'
          \<and> delivered outs = received s' \<and> evicted outs = dropped s'"
        by simp
      then show ?thesis by blast
    next
      case full
      with o new(4) have "map removed (outs @ [Evicted y]) @ buf (queue s') = sent s'
          \<and> delivered (outs @ [Evicted y]) = received s'
          \<and> evicted (outs @ [Evicted y]) = dropped s'"
        by (simp add: outs_snoc)
      then show ?thesis by blast
    qed
  qed
next
  fix s c q'
  assume i: "\<exists>outs. map removed outs @ buf (queue s) = sent s
           \<and> delivered outs = received s \<and> evicted outs = dropped s"
    and d: "dequeue (queue s) = Some (c, q')"
  then obtain outs where o: "map removed outs @ buf (queue s) = sent s"
    "delivered outs = received s" "evicted outs = dropped s"
    by blast
  from dequeue_SomeD[OF d] have b: "buf (queue s) = c # buf q'" by simp
  let ?s = "s\<lparr>queue := q', received := received s @ [c]\<rparr>"
  from o b have "map removed (outs @ [Delivered c]) @ buf (queue ?s) = sent ?s
      \<and> delivered (outs @ [Delivered c]) = received ?s
      \<and> evicted (outs @ [Delivered c]) = dropped ?s"
    by (simp add: outs_snoc)
  then show "\<exists>outs. map removed outs @ buf (queue ?s) = sent ?s
      \<and> delivered outs = received ?s \<and> evicted outs = dropped ?s"
    by blast
qed simp_all

lemma process_received_order:
  assumes "run U M init_state evs = Inr st"
  shows "subseq (received st) (sent st)
       \<and> received st =
           filter (\<lambda>c. c \<notin> set (dropped st) \<and> c \<notin> set (buf (queue st))) (sent st)"
proof -
  have "\<exists>outs. map removed outs @ buf (queue init_state) = sent init_state
           \<and> delivered outs = received init_state \<and> evicted outs = dropped init_state"
    by (rule exI[of _ "[]"]) (simp add: init_state_def make_chan_def)
  from process_order[OF assms this] obtain outs where
    o: "map removed outs @ buf (queue st) = sent st"
    and d: "delivered outs = received st" and e: "evicted outs = dropped st"
    by blast
  from sent_distinct[OF assms] have "distinct (map ID (sent st))"
    by (simp add: init_state_fields)
  then have ds: "distinct (sent st)" by (simp add: distinct_map)
  from delivered_subseq_of_order[OF o] delivered_of_order[OF o ds] d e
  show ?thesis by simp
qed

text \<open>The calls played to the end are, in order, among the calls the player received.\<close>

lemma rangeCalls_player_frame:
  assumes "rangeCalls st cs = Inr st'"
  shows "played st' = played st \<and> received st' = received st"
proof (rule rangeCalls_invariant[of st cs st'
      "\<lambda>s. played s = played st \<and> received s = received st", OF assms])
  fix s c s'
  assume "played s = played st \<and> received s = received st" and "processCall s c = Inr s'"
  then show "played s' = played st \<and> received s' = received st"
    by (elim processCall_InrE) auto
qed simp

lemma step_played:
  assumes "step U M st ev = Inr st'" and "subseq (played st) (received st)"
  shows "subseq (played st') (received st')"
proof (cases ev)
  case Interrupt
  with assms show ?thesis by (auto simp: step_def split: if_splits)
next
  case (Fetcher fired pick r)
  show ?thesis
  proof (cases "pick = CaseTimer")
    case True
    with Fetcher assms(1) have "step U M st (Fetcher fired CaseTimer r) = Inr st'" by simp
    from step_Fetcher_TimerD[OF this] rangeCalls_player_frame
    have "played st' = played st \<and> received st' = received st" by fastforce
    with assms(2) show ?thesis by simp
  next
    case False
    with Fetcher assms show ?thesis
      by (cases pick) (auto simp: step_def fetchCalls_iter_def fetchCalls_ready_def split: if_splits)
  qed
next
  case (Player pick beep play)
  with assms(1) have it: "playAudio_iter st pick beep play = Inr st'" by (simp add: step_def)
  show ?thesis
  proof (cases "pick = CaseDone")
    case True
    with it assms(2) show ?thesis
      by (auto simp: playAudio_iter_def split: if_splits)
  next
    case False
    from assms(2) have "\<And>c. subseq (played st) (received st @ [c])"
      and "\<And>c. subseq (played st @ [c]) (received st @ [c])"
      by (simp_all add: list_emb_prefix list_emb_append_mono)
    with it False show ?thesis
      by (auto simp: playAudio_iter_def Let_def split: if_splits option.splits)
  qed
qed

lemma process_played_order:
  assumes "run U M st evs = Inr st'" and "subseq (played st) (received st)"
  shows "subseq (played st') (received st')"
  using assms
proof (induction evs arbitrary: st)
  case Nil
  then show ?case by simp
next
  case (Cons ev evs)
  from Cons.prems(1) obtain s1 where s: "step U M st ev = Inr s1" and r: "run U M s1 evs = Inr st'"
    by (auto split: sum.splits)
  from Cons.IH[OF r step_played[OF s Cons.prems(2)]] show ?case .
qed

text \<open>
  Claim C4. The player receives the calls in the order in which the fetcher enqueued
  them. For every sequence of single channel operations of the two goroutines on a
  queue created empty, also with receives of the player inside an enqueue: the calls
  that left the queue (evicted by the fetcher or delivered to the player), in the order
  they left, followed by the calls still in the queue and the call of an unfinished
  enqueue, are the calls the fetcher offered, in the order it offered them; so the calls
  delivered are a subsequence of the calls offered, and when these are distinct, they
  are the calls offered with the evicted and the remaining ones left out. The same holds
  for sequences of whole enqueue and dequeue operations, and in every run of the process
  for the calls \<^verbatim>\<open>playAudio\<close> received and the calls \<^verbatim>\<open>fetchCalls\<close> sent; the calls
  played to the end are, in the same order, among the calls received.
\<close>

theorem fifo_order:
  "(chan_run (make_chan n, Idle) as = Some (q, pc) \<longrightarrow>
      map removed (chan_outs (make_chan n, Idle) as) @ buf q @ in_flight pc = offered as
      \<and> subseq (delivered (chan_outs (make_chan n, Idle) as)) (offered as)
      \<and> (distinct (offered as) \<longrightarrow>
           delivered (chan_outs (make_chan n, Idle) as) =
             filter (\<lambda>x. x \<notin> set (evicted (chan_outs (make_chan n, Idle) as))
                        \<and> x \<notin> set (buf q) \<and> x \<notin> set (in_flight pc)) (offered as)))
   \<and> (run_ops (make_chan n) ops = Some (outs, q0) \<longrightarrow>
      map removed outs @ buf q0 = enqueued ops
      \<and> subseq (delivered outs) (enqueued ops)
      \<and> (distinct (enqueued ops) \<longrightarrow>
           delivered outs =
             filter (\<lambda>x. x \<notin> set (evicted outs) \<and> x \<notin> set (buf q0)) (enqueued ops)))
   \<and> (run U M init_state evs = Inr st \<longrightarrow>
      subseq (received st) (sent st)
      \<and> received st =
          filter (\<lambda>c. c \<notin> set (dropped st) \<and> c \<notin> set (buf (queue st))) (sent st)
      \<and> subseq (played st) (received st))"
proof -
  let ?outs = "chan_outs (make_chan n, Idle) as"
  have fine: "map removed ?outs @ buf q @ in_flight pc = offered as
      \<and> subseq (delivered ?outs) (offered as)
      \<and> (distinct (offered as) \<longrightarrow>
           delivered ?outs =
             filter (\<lambda>x. x \<notin> set (evicted ?outs) \<and> x \<notin> set (buf q) \<and> x \<notin> set (in_flight pc))
               (offered as))"
    if r: "chan_run (make_chan n, Idle) as = Some (q, pc)"
  proof -
    from chan_run_order[OF r] have o: "map removed ?outs @ (buf q @ in_flight pc) = offered as"
      by (simp add: make_chan_def)
    from delivered_subseq_of_order[OF o] have s: "subseq (delivered ?outs) (offered as)" .
    have "delivered ?outs =
        filter (\<lambda>x. x \<notin> set (evicted ?outs) \<and> x \<notin> set (buf q) \<and> x \<notin> set (in_flight pc))
          (offered as)"
      if d: "distinct (offered as)"
      using delivered_of_order[OF o d] by simp
    with o s show ?thesis by simp
  qed
  have coarse: "map removed outs @ buf q0 = enqueued ops
      \<and> subseq (delivered outs) (enqueued ops)
      \<and> (distinct (enqueued ops) \<longrightarrow>
           delivered outs =
             filter (\<lambda>x. x \<notin> set (evicted outs) \<and> x \<notin> set (buf q0)) (enqueued ops))"
    if r: "run_ops (make_chan n) ops = Some (outs, q0)"
  proof -
    from run_ops_order[OF r] have o: "map removed outs @ buf q0 = enqueued ops"
      by (simp add: make_chan_def)
    from delivered_subseq_of_order[OF o] delivered_of_order[OF o] o show ?thesis by blast
  qed
  have whole: "subseq (received st) (sent st)
      \<and> received st =
          filter (\<lambda>c. c \<notin> set (dropped st) \<and> c \<notin> set (buf (queue st))) (sent st)
      \<and> subseq (played st) (received st)"
    if r: "run U M init_state evs = Inr st"
    using process_received_order[OF r] process_played_order[OF r]
    by (simp add: init_state_def)
  from fine coarse whole show ?thesis by blast
qed

theorem fifo_order_witness:
  "chan_run (make_chan 2, Idle)
     [Offer (sample_call ''A''), Offer (sample_call ''B''), Offer (sample_call ''C''),
      Receive, Advance, Advance, Receive] = Some (\<lparr>buf = [], cap = 2\<rparr>, Idle)
   \<and> chan_outs (make_chan 2, Idle)
     [Offer (sample_call ''A''), Offer (sample_call ''B''), Offer (sample_call ''C''),
      Receive, Advance, Advance, Receive] =
       [Delivered (sample_call ''A''), Evicted (sample_call ''B''), Delivered (sample_call ''C'')]
   \<and> distinct [sample_call ''A'', sample_call ''B'', sample_call ''C'']
   \<and> [sample_call ''A'', sample_call ''C''] =
       filter (\<lambda>x. x \<notin> {sample_call ''B''}) [sample_call ''A'', sample_call ''B'', sample_call ''C'']
   \<and> run_ops (make_chan 2)
     [Enqueue (sample_call ''A''), Enqueue (sample_call ''B''), Enqueue (sample_call ''C''),
      Dequeue, Enqueue (sample_call ''D''), Dequeue] =
     Some ([Evicted (sample_call ''A''), Delivered (sample_call ''B''), Delivered (sample_call ''C'')],
           \<lparr>buf = [sample_call ''D''], cap = 2\<rparr>)
   \<and> run sample_Unquote sample_Unmarshal init_state
       [Fetcher True CaseTimer (listing ''XY''), Fetcher True CaseTimer (listing ''XYZ''),
        Player CaseQueue ExecOk ExecOk] =
     Inr (steady_state\<lparr>queue := \<lparr>buf = [], cap = MaxQueueSize\<rparr>,
                       received := [sample_call ''Z''], played := [sample_call ''Z'']\<rparr>)
   \<and> subseq [sample_call ''Z''] [sample_call ''Z'']"
proof -
  let ?as = "[Offer (sample_call ''A''), Offer (sample_call ''B''), Offer (sample_call ''C''),
      Receive, Advance, Advance, Receive]"
  let ?ops = "[Enqueue (sample_call ''A''), Enqueue (sample_call ''B''), Enqueue (sample_call ''C''),
      Dequeue, Enqueue (sample_call ''D''), Dequeue]"
  let ?outs = "[Evicted (sample_call ''A''), Delivered (sample_call ''B''), Delivered (sample_call ''C'')]"
  let ?q0 = "\<lparr>buf = [sample_call ''D''], cap = 2\<rparr>"
  let ?evs = "[Fetcher True CaseTimer (listing ''XY''), Fetcher True CaseTimer (listing ''XYZ''),
        Player CaseQueue ExecOk ExecOk]"
  let ?S = "steady_state\<lparr>queue := \<lparr>buf = [], cap = MaxQueueSize\<rparr>,
                       received := [sample_call ''Z''], played := [sample_call ''Z'']\<rparr>"
  have c: "chan_run (make_chan 2, Idle) ?as = Some (\<lparr>buf = [], cap = 2\<rparr>, Idle)"
    by (simp add: make_chan_def chan_send_def chan_recv_def)
  have co: "chan_outs (make_chan 2, Idle) ?as =
       [Delivered (sample_call ''A''), Evicted (sample_call ''B''), Delivered (sample_call ''C'')]"
    by (simp add: make_chan_def chan_send_def chan_recv_def)
  have d: "distinct [sample_call ''A'', sample_call ''B'', sample_call ''C'']"
    by (simp add: sample_call_def)
  have of: "offered ?as = [sample_call ''A'', sample_call ''B'', sample_call ''C'']" by simp
  have r: "run_ops (make_chan 2) ?ops = Some (?outs, ?q0)"
    by (simp add: make_chan_def tryEnqueue_def chan_send_def chan_recv_def dequeue_def)
  have p: "step sample_Unquote sample_Unmarshal steady_state (Player CaseQueue ExecOk ExecOk) = Inr ?S"
    by (simp add: step_def playAudio_iter_def playAudio_ready_def dequeue_def chan_recv_def
        steady_state_def init_state_def)
  have s: "run sample_Unquote sample_Unmarshal init_state ?evs = Inr ?S"
    by (simp add: sample_priming sample_steady p)
  note t = fifo_order[of 2 ?as "\<lparr>buf = [], cap = 2\<rparr>" Idle ?ops ?outs ?q0
      sample_Unquote sample_Unmarshal ?evs ?S]
  from t c d of have "delivered (chan_outs (make_chan 2, Idle) ?as) =
      filter (\<lambda>x. x \<notin> set (evicted (chan_outs (make_chan 2, Idle) ?as))
                 \<and> x \<notin> set (buf \<lparr>buf = [], cap = 2\<rparr>) \<and> x \<notin> set (in_flight Idle))
        [sample_call ''A'', sample_call ''B'', sample_call ''C'']"
    by simp
  then have f: "[sample_call ''A'', sample_call ''C''] =
       filter (\<lambda>x. x \<notin> {sample_call ''B''}) [sample_call ''A'', sample_call ''B'', sample_call ''C'']"
    unfolding co by simp
  from t s have "subseq (received ?S) (sent ?S)" by blast
  then have z: "subseq [sample_call ''Z''] [sample_call ''Z'']"
    by (simp add: steady_state_def)
  from c co d f r s z show ?thesis by blast
qed

end
